theory Spec2Isabelle
  imports Complex_Main
begin

section \<open>Data model (types.ts)\<close>

text \<open>
  The campaign dashboard keeps its state in React state variables. The counters
  \<open>targetViews\<close> and \<open>currentViews\<close> are integers (the number field is taken to
  deliver integers, and a double holds an integer below \<open>2 ^ 53\<close> exactly), and the
  values of \<open>Math.random()\<close> are reals in the half-open unit interval. The progress is
  computed as the code computes it, in IEEE double arithmetic: the quotient and the
  product are each rounded to the nearest double (\<open>binary64\<close> below). Strings are
  \<open>char list\<close>; every string the code inspects is compared against ASCII markers only.
\<close>

datatype BoostStatus = IDLE | PROCESSING | COMPLETED | ERROR

datatype NodeStatus = Online | Busy | Offline

record ServerNode =
  id_node :: string
  name_node :: string
  region_node :: string
  status_node :: NodeStatus
  load_node :: int

datatype LogType = Info | Success | Warning | Error

record LogEntry =
  timestamp :: string
  message :: string
  type_log :: LogType

text \<open>
  A value as \<open>JSON.parse\<close> delivers it. The fields of a \<open>ViralAnalysis\<close> hold such
  values, since the interface's field types are erased at run time and the service's
  answer is stored as parsed.
\<close>

datatype json =
    JNull
  | JBool bool
  | JNumber real
  | JString string
  | JArray "json list"
  | JObject "(string \<times> json) list"

record ViralAnalysis =
  score :: json
  recommendations :: json
  estimatedReach :: json

section \<open>The node registry (constants.ts)\<close>

definition SERVER_NODES :: "ServerNode list" where
  "SERVER_NODES =
    [\<lparr>id_node = ''us-east-1'', name_node = ''Phoenix-Alpha'', region_node = ''North America'',
       status_node = Online, load_node = 45\<rparr>,
     \<lparr>id_node = ''eu-west-1'', name_node = ''Berlin-Beta'', region_node = ''Europe'',
       status_node = Online, load_node = 12\<rparr>,
     \<lparr>id_node = ''ap-southeast-1'', name_node = ''Singapore-Gamma'', region_node = ''Asia Pacific'',
       status_node = Online, load_node = 88\<rparr>,
     \<lparr>id_node = ''br-south-1'', name_node = ''Sao-Paulo-Delta'', region_node = ''South America'',
       status_node = Busy, load_node = 95\<rparr>,
     \<lparr>id_node = ''jp-tokyo-1'', name_node = ''Tokyo-Epsilon'', region_node = ''East Asia'',
       status_node = Online, load_node = 22\<rparr>]"

definition VIEW_PRESETS :: "int list" where
  "VIEW_PRESETS = [500, 1000, 5000, 10000]"

section \<open>JavaScript helpers\<close>

text \<open>Decimal rendering of an integer, as a template literal renders a number.\<close>

fun string_of_nat :: "nat \<Rightarrow> string" where
  "string_of_nat n =
     (if n < 10 then [''0123456789'' ! n]
      else string_of_nat (n div 10) @ [''0123456789'' ! (n mod 10)])"

declare string_of_nat.simps [simp del]

definition toString :: "int \<Rightarrow> string" where
  "toString n = (if n < 0 then CHR ''-'' # string_of_nat (nat (- n)) else string_of_nat (nat n))"

text \<open>\<open>s.startsWith(t)\<close> and \<open>s.includes(t)\<close>.\<close>

fun startsWith :: "string \<Rightarrow> string \<Rightarrow> bool" where
  "startsWith s [] = True"
| "startsWith [] (c # t) = False"
| "startsWith (d # s) (c # t) = (d = c \<and> startsWith s t)"

fun includes_str :: "string \<Rightarrow> string \<Rightarrow> bool" where
  "includes_str [] t = (t = [])"
| "includes_str (c # s) t = (startsWith (c # s) t \<or> includes_str s t)"

text \<open>\<open>xs.slice(-n)\<close> for a positive \<open>n\<close>: the last \<open>n\<close> elements, all of them when there are fewer.\<close>

definition slice_last :: "nat \<Rightarrow> 'a list \<Rightarrow> 'a list" where
  "slice_last n xs = drop (length xs - n) xs"

text \<open>\<open>xs[i]\<close>: \<open>undefined\<close> (here \<open>None\<close>) outside the array.\<close>

definition index :: "'a list \<Rightarrow> int \<Rightarrow> 'a option" where
  "index xs i = (if 0 \<le> i \<and> i < int (length xs) then Some (xs ! nat i) else None)"

text \<open>A value of \<open>Math.random()\<close> lies in the half-open unit interval.\<close>

definition is_random :: "real \<Rightarrow> bool" where
  "is_random r = (0 \<le> r \<and> r < 1)"

subsection \<open>Double arithmetic\<close>

text \<open>
  Rounding of a real number to the nearest IEEE double (binary64: 53 significant bits,
  ties to the even significand, exponents from \<open>-1022\<close> to \<open>1023\<close>, gradual
  underflow). \<open>bit_length n\<close> is the number of binary digits of \<open>n\<close>, \<open>pow2 e\<close>
  is \<open>2\<close> to the power \<open>e\<close>, and \<open>exponent x\<close>, for a positive \<open>x\<close>, is the
  \<open>e\<close> with \<open>pow2 e \<le> x < pow2 (e + 1)\<close>. \<open>binary64 x\<close> is \<open>None\<close> when the
  rounded value overflows to an infinity.
\<close>

fun bit_length :: "nat \<Rightarrow> nat" where
  "bit_length n = (if n = 0 then 0 else Suc (bit_length (n div 2)))"

declare bit_length.simps [simp del]

definition pow2 :: "int \<Rightarrow> real" where
  "pow2 e = (if 0 \<le> e then 2 ^ nat e else 1 / 2 ^ nat (- e))"

definition exponent :: "real \<Rightarrow> int" where
  "exponent x =
     (if 1 \<le> x then int (bit_length (nat \<lfloor>x\<rfloor>)) - 1
      else - int (bit_length (nat (\<lceil>1 / x\<rceil> - 1))))"

definition round_even :: "real \<Rightarrow> int" where
  "round_even x =
     (if x - real_of_int \<lfloor>x\<rfloor> < 1 / 2 then \<lfloor>x\<rfloor>
      else if 1 / 2 < x - real_of_int \<lfloor>x\<rfloor> then \<lfloor>x\<rfloor> + 1
      else if even \<lfloor>x\<rfloor> then \<lfloor>x\<rfloor> else \<lfloor>x\<rfloor> + 1)"

definition binary64 :: "real \<Rightarrow> real option" where
  "binary64 x =
     (if x = 0 then Some 0
      else
        (let q = pow2 (max (exponent \<bar>x\<bar>) (- 1022) - 52);
             y = sgn x * real_of_int (round_even (\<bar>x\<bar> / q)) * q
         in if pow2 1024 \<le> \<bar>y\<bar> then None else Some y))"

datatype js_error = TypeError | SyntaxError | ServiceError

section \<open>The campaign simulator (App.tsx)\<close>

text \<open>
  The regular expression \<open>/\/video\/(\d+)/\<close>: the leftmost place where \<open>/video/\<close> is
  followed by a digit, and the longest run of digits there.
\<close>

definition isDigit :: "char \<Rightarrow> bool" where
  "isDigit c = (c \<in> set ''0123456789'')"

fun getTikTokId :: "string \<Rightarrow> string option" where
  "getTikTokId [] = None"
| "getTikTokId (c # s) =
     (if startsWith (c # s) ''/video/'' \<and> takeWhile isDigit (drop 7 (c # s)) \<noteq> []
      then Some (takeWhile isDigit (drop 7 (c # s)))
      else getTikTokId s)"

record app_state =
  videoUrl :: string
  targetViews :: int
  currentViews :: int
  status :: BoostStatus
  logs :: "LogEntry list"
  activeServer :: ServerNode
  analysis :: "ViralAnalysis option"
  isAnalyzing :: bool
  progress :: "int option"

text \<open>
  \<open>progress\<close> is \<open>None\<close> when the number stored is not finite: the quotient by a zero
  target is \<open>NaN\<close> or an infinity in JavaScript.
\<close>

definition initial_state :: app_state where
  "initial_state =
    \<lparr>videoUrl = [], targetViews = 500, currentViews = 0, status = IDLE, logs = [],
     activeServer = SERVER_NODES ! 0, analysis = None, isAnalyzing = False,
     progress = Some 0\<rparr>"

text \<open>\<open>addLog\<close>: the time of day is read from the clock, here the argument \<open>now\<close>.\<close>

definition addLog :: "string \<Rightarrow> string \<Rightarrow> LogType \<Rightarrow> app_state \<Rightarrow> app_state" where
  "addLog now msg ty s =
     s\<lparr>logs := slice_last 100 (logs s @ [\<lparr>timestamp = now, message = msg, type_log = ty\<rparr>])\<rparr>"

text \<open>
  What one run of the interval callback reads from its environment: the clock, and the
  values of \<open>Math.random()\<close> at the four places that call it.
\<close>

record tick_input =
  now :: string
  rotate_roll :: real
  server_roll :: real
  latency_roll :: real
  increment_roll :: real

definition valid_tick_input :: "tick_input \<Rightarrow> bool" where
  "valid_tick_input i =
     (is_random (rotate_roll i) \<and> is_random (server_roll i) \<and>
      is_random (latency_roll i) \<and> is_random (increment_roll i))"

definition task_successful :: "int \<Rightarrow> string" where
  "task_successful target =
     ''Task successful: '' @ toString target @ '' views distributed across '' @
     toString (int (length SERVER_NODES)) @ '' nodes.''"

definition handoff :: "ServerNode \<Rightarrow> int \<Rightarrow> string" where
  "handoff nextServer latency =
     ''Handoff to '' @ name_node nextServer @ '' ('' @ region_node nextServer @
     '') - Latency: '' @ toString latency @ ''ms''"

definition availableServers :: "app_state \<Rightarrow> ServerNode list" where
  "availableServers s = filter (\<lambda>n. id_node n \<noteq> id_node (activeServer s)) SERVER_NODES"

text \<open>
  The server rotation of the callback. Reading \<open>nextServer.name\<close> of an
  \<open>undefined\<close> element raises a \<open>TypeError\<close>.
\<close>

definition rotation :: "tick_input \<Rightarrow> app_state \<Rightarrow> js_error + app_state" where
  "rotation i s =
     (if rotate_roll i > 0.85 then
        (case index (availableServers s)
                \<lfloor>server_roll i * real (length (availableServers s))\<rfloor> of
           None \<Rightarrow> Inl TypeError
         | Some nextServer \<Rightarrow>
             Inr (addLog (now i) (handoff nextServer \<lfloor>latency_roll i * 100 + 20\<rfloor>) Info
                    (s\<lparr>activeServer := nextServer\<rparr>)))
      else Inr s)"

definition increment :: "tick_input \<Rightarrow> int" where
  "increment i = \<lfloor>increment_roll i * 25\<rfloor> + 10"

text \<open>
  \<open>Math.floor((nextVal / targetViews) * 100)\<close>. Both operations are IEEE double
  operations: each delivers the double nearest to the exact result. \<open>None\<close> stands
  for a result that is not finite.
\<close>

definition percent :: "int \<Rightarrow> int \<Rightarrow> int option" where
  "percent nextVal target =
     (if target = 0 then None
      else
        (case binary64 (real_of_int nextVal / real_of_int target) of
           None \<Rightarrow> None
         | Some q \<Rightarrow>
             (case binary64 (q * 100) of
                None \<Rightarrow> None
              | Some p \<Rightarrow> Some \<lfloor>p\<rfloor>)))"

definition tick :: "tick_input \<Rightarrow> app_state \<Rightarrow> js_error + app_state" where
  "tick i s =
     (if currentViews s \<ge> targetViews s then
        Inr ((addLog (now i) (task_successful (targetViews s)) Success
               (s\<lparr>status := COMPLETED\<rparr>))\<lparr>currentViews := targetViews s\<rparr>)
      else
        (case rotation i s of
           Inl e \<Rightarrow> Inl e
         | Inr s1 \<Rightarrow>
             (let nextVal = min (currentViews s + increment i) (targetViews s)
              in Inr (s1\<lparr>progress := percent nextVal (targetViews s),
                         currentViews := nextVal\<rparr>))))"

text \<open>
  The interval exists only while the status is \<open>PROCESSING\<close>: the effect sets it up
  then, and its cleanup clears it whenever the status changes. \<open>run_ticks\<close> runs the
  callback once for each input, as long as the interval exists.
\<close>

fun run_ticks :: "tick_input list \<Rightarrow> app_state \<Rightarrow> js_error + app_state" where
  "run_ticks [] s = Inr s"
| "run_ticks (i # is) s =
     (if status s = PROCESSING then
        (case tick i s of Inl e \<Rightarrow> Inl e | Inr s1 \<Rightarrow> run_ticks is s1)
      else Inr s)"

definition valid_url :: "string \<Rightarrow> bool" where
  "valid_url url = (\<not> (url = [] \<or> \<not> includes_str url ''tiktok.com''))"

definition handleStartBoost :: "string \<Rightarrow> string \<Rightarrow> string \<Rightarrow> app_state \<Rightarrow> app_state" where
  "handleStartBoost now1 now2 now3 s =
     (if videoUrl s = [] \<or> \<not> includes_str (videoUrl s) ''tiktok.com'' then
        addLog now1 ''Invalid source: Please provide a valid TikTok video link.'' Error s
      else
        (let ident = getTikTokId (videoUrl s);
             s1 = s\<lparr>status := PROCESSING, currentViews := 0, progress := Some 0,
                    analysis := None\<rparr>;
             s2 = addLog now1 ''Initiating View Distribution Protocol...'' Info s1;
             s3 = addLog now2
                    (''Targeting Resource ID: '' @
                       (case ident of None \<Rightarrow> ''Generic_Stream'' | Some d \<Rightarrow> d)) Info s2;
             s4 = addLog now3
                    (''Load balancing across '' @ toString (int (length SERVER_NODES)) @
                       '' global relay points.'') Info s3
         in s4\<lparr>isAnalyzing := True\<rparr>))"

definition handleReset :: "string \<Rightarrow> app_state \<Rightarrow> app_state" where
  "handleReset now1 s =
     addLog now1 ''Dashboard synchronized. Ready for next campaign.'' Info
       (s\<lparr>status := IDLE, currentViews := 0, progress := Some 0, logs := [],
          analysis := None\<rparr>)"

text \<open>How the promise of the analysis settles, and the two callbacks attached to it.\<close>

datatype 'a settled = Rejected js_error | Fulfilled 'a

definition analysis_settled :: "string \<Rightarrow> ViralAnalysis settled \<Rightarrow> app_state \<Rightarrow> app_state" where
  "analysis_settled now1 outcome s =
     (case outcome of
        Fulfilled res \<Rightarrow>
          addLog now1 ''Content patterns analyzed. Viral score updated in dashboard.'' Success
            (s\<lparr>analysis := Some res, isAnalyzing := False\<rparr>)
      | Rejected e \<Rightarrow>
          addLog now1 ''Analysis module timed out. Proceeding with standard boost.'' Warning
            (s\<lparr>isAnalyzing := False\<rparr>))"

subsection \<open>The dashboard as a transition system\<close>

text \<open>
  What can happen to the dashboard: typing into the two fields, the preset buttons, the
  start button, the abort button, a run of the interval callback, and the settling of an
  analysis request. \<open>enabled\<close> is the guard the rendered page puts on each: the fields
  and presets are disabled while \<open>PROCESSING\<close>, the start button is rendered for
  \<open>IDLE\<close>, \<open>ERROR\<close> and \<open>COMPLETED\<close>, the abort button otherwise, and the interval
  exists while \<open>PROCESSING\<close>. An analysis may settle at any moment and with any outcome.
\<close>

datatype event =
    TypeUrl string
  | TypeTarget int
  | ClickPreset int
  | ClickStart string string string
  | ClickAbort string
  | IntervalTick tick_input
  | AnalysisSettled string "ViralAnalysis settled"

fun enabled :: "app_state \<Rightarrow> event \<Rightarrow> bool" where
  "enabled s (TypeUrl u) = (status s \<noteq> PROCESSING)"
| "enabled s (TypeTarget n) = (status s \<noteq> PROCESSING)"
| "enabled s (ClickPreset n) = (status s \<noteq> PROCESSING \<and> List.member VIEW_PRESETS n)"
| "enabled s (ClickStart now1 now2 now3) =
     (status s = IDLE \<or> status s = ERROR \<or> status s = COMPLETED)"
| "enabled s (ClickAbort now1) =
     (\<not> (status s = IDLE \<or> status s = ERROR \<or> status s = COMPLETED))"
| "enabled s (IntervalTick i) = (status s = PROCESSING \<and> valid_tick_input i)"
| "enabled s (AnalysisSettled now1 outcome) = True"

fun fire :: "event \<Rightarrow> app_state \<Rightarrow> js_error + app_state" where
  "fire (TypeUrl u) s = Inr (s\<lparr>videoUrl := u\<rparr>)"
| "fire (TypeTarget n) s = Inr (s\<lparr>targetViews := n\<rparr>)"
| "fire (ClickPreset n) s = Inr (s\<lparr>targetViews := n\<rparr>)"
| "fire (ClickStart now1 now2 now3) s = Inr (handleStartBoost now1 now2 now3 s)"
| "fire (ClickAbort now1) s = Inr (handleReset now1 s)"
| "fire (IntervalTick i) s = tick i s"
| "fire (AnalysisSettled now1 outcome) s = Inr (analysis_settled now1 outcome s)"

inductive reachable :: "app_state \<Rightarrow> bool" where
  reachable_init: "reachable initial_state"
| reachable_step: "reachable s \<Longrightarrow> enabled s e \<Longrightarrow> fire e s = Inr s' \<Longrightarrow> reachable s'"

text \<open>The events that write the counter.\<close>

fun counter_update :: "app_state \<Rightarrow> event \<Rightarrow> bool" where
  "counter_update s (ClickStart now1 now2 now3) = valid_url (videoUrl s)"
| "counter_update s (ClickAbort now1) = True"
| "counter_update s (IntervalTick i) = True"
| "counter_update s e = False"

section \<open>The content analysis client (services/geminiService.ts)\<close>

text \<open>
  The request to the service and \<open>JSON.parse\<close> are parameters of the model:
  \<open>generateContent\<close> maps the prompt to what awaiting the request gives (the request
  throws, or a response arrives whose \<open>text\<close> is a string or \<open>undefined\<close>), and
  \<open>JSON_parse\<close> gives \<open>None\<close> where \<open>JSON.parse\<close> raises a \<open>SyntaxError\<close>.
\<close>

datatype generate_result = Throws | Response "string option"

definition prompt :: "string \<Rightarrow> string" where
  "prompt url =
     ''Perform a simulation analysis for this TikTok video URL: '' @ url @ ''. '' @
     [CHR 0x0A] @
     ''      Give a viral potential score (0-100), 3 specific content optimization tips to boost organic growth, and an estimated reach if boosted. '' @
     [CHR 0x0A] @
     ''      Return the data strictly as JSON.''"

text \<open>\<open>result.key\<close> for the three keys the client reads; \<open>None\<close> is \<open>undefined\<close>.\<close>

fun get_property :: "json \<Rightarrow> string \<Rightarrow> js_error + json option" where
  "get_property JNull key = Inl TypeError"
| "get_property (JObject kvs) key = Inr (map_of kvs key)"
| "get_property v key = Inr None"

fun truthy :: "json option \<Rightarrow> bool" where
  "truthy None = False"
| "truthy (Some JNull) = False"
| "truthy (Some (JBool b)) = b"
| "truthy (Some (JNumber x)) = (x \<noteq> 0)"
| "truthy (Some (JString t)) = (t \<noteq> [])"
| "truthy (Some (JArray vs)) = True"
| "truthy (Some (JObject kvs)) = True"

text \<open>\<open>v || d\<close>.\<close>

fun or_else :: "json option \<Rightarrow> json \<Rightarrow> json" where
  "or_else None d = d"
| "or_else (Some v) d = (if truthy (Some v) then v else d)"

definition fallback :: ViralAnalysis where
  "fallback =
     \<lparr>score = JNumber 0,
      recommendations =
        JArray [JString ''Ensure high lighting'', JString ''Use trending sounds'',
                JString ''Post at peak hours''],
      estimatedReach = JString ''N/A''\<rparr>"

text \<open>The body of the \<open>try\<close> block: \<open>Inl\<close> is an exception raised inside it.\<close>

definition analyze_try ::
  "(string \<Rightarrow> json option) \<Rightarrow> (string \<Rightarrow> generate_result) \<Rightarrow> string \<Rightarrow> js_error + ViralAnalysis" where
  "analyze_try JSON_parse generateContent url =
     (case generateContent (prompt url) of
        Throws \<Rightarrow> Inl ServiceError
      | Response text \<Rightarrow>
          (case JSON_parse (case text of None \<Rightarrow> ''{}'' | Some t \<Rightarrow> if t = [] then ''{}'' else t) of
             None \<Rightarrow> Inl SyntaxError
           | Some result \<Rightarrow>
               (case get_property result ''score'' of
                  Inl e \<Rightarrow> Inl e
                | Inr sc \<Rightarrow>
                    (case get_property result ''recommendations'' of
                       Inl e \<Rightarrow> Inl e
                     | Inr recs \<Rightarrow>
                         (case get_property result ''estimatedReach'' of
                            Inl e \<Rightarrow> Inl e
                          | Inr reach \<Rightarrow>
                              Inr \<lparr>score = or_else sc (JNumber 0),
                                   recommendations = or_else recs (JArray []),
                                   estimatedReach = or_else reach (JString ''Unknown'')\<rparr>)))))"

text \<open>The \<open>catch\<close> block returns the fallback, so the promise is always fulfilled.\<close>

definition analyzeTikTokContent ::
  "(string \<Rightarrow> json option) \<Rightarrow> (string \<Rightarrow> generate_result) \<Rightarrow> string \<Rightarrow> ViralAnalysis settled" where
  "analyzeTikTokContent JSON_parse generateContent url =
     (case analyze_try JSON_parse generateContent url of
        Inl e \<Rightarrow> Fulfilled fallback
      | Inr res \<Rightarrow> Fulfilled res)"

section \<open>Example inputs\<close>

text \<open>
  A campaign started from the initial dashboard on a video link, with the initial target
  of 500, and one reading of the clock and of the random source.
\<close>

definition example_url :: string where
  "example_url = ''https://www.tiktok.com/@user/video/7123456789''"

definition example_started :: app_state where
  "example_started =
     handleStartBoost ''12:00:00'' ''12:00:00'' ''12:00:00'' (initial_state\<lparr>videoUrl := example_url\<rparr>)"

definition example_input :: tick_input where
  "example_input =
     \<lparr>now = ''12:00:01'', rotate_roll = 9 / 10, server_roll = 1 / 2, latency_roll = 1 / 4,
      increment_roll = 1 / 2\<rparr>"

text \<open>The same campaign started after \<open>-5\<close> was typed into the target field.\<close>

definition example_negative :: app_state where
  "example_negative =
     handleStartBoost ''12:00:00'' ''12:00:00'' ''12:00:00''
       (initial_state\<lparr>videoUrl := example_url, targetViews := - 5\<rparr>)"

text \<open>
  The same campaign started after \<open>100\<close> was typed into the target field, a reading
  of the random source that rotates no server and draws the increment 29, and the
  dashboard after the tick with that reading.
\<close>

definition example_hundred :: app_state where
  "example_hundred =
     handleStartBoost ''12:00:00'' ''12:00:00'' ''12:00:00''
       (initial_state\<lparr>videoUrl := example_url, targetViews := 100\<rparr>)"

definition example_roll :: tick_input where
  "example_roll =
     \<lparr>now = ''12:00:01'', rotate_roll = 1 / 2, server_roll = 1 / 2, latency_roll = 1 / 4,
      increment_roll = 25 / 32\<rparr>"

definition example_hundred_ticked :: app_state where
  "example_hundred_ticked = example_hundred\<lparr>progress := Some 28, currentViews := 29\<rparr>"


section \<open>Basic facts\<close>

subsection \<open>The log\<close>

lemma length_slice_last: "length (slice_last n xs) = min n (length xs)"
  by (simp add: slice_last_def)

lemma logs_addLog:
  "logs (addLog now1 msg ty s) =
     slice_last 100 (logs s @ [\<lparr>timestamp = now1, message = msg, type_log = ty\<rparr>])"
  by (simp add: addLog_def)

lemma addLog_fields [simp]:
  "videoUrl (addLog now1 msg ty s) = videoUrl s"
  "targetViews (addLog now1 msg ty s) = targetViews s"
  "currentViews (addLog now1 msg ty s) = currentViews s"
  "status (addLog now1 msg ty s) = status s"
  "activeServer (addLog now1 msg ty s) = activeServer s"
  "analysis (addLog now1 msg ty s) = analysis s"
  "isAnalyzing (addLog now1 msg ty s) = isAnalyzing s"
  "progress (addLog now1 msg ty s) = progress s"
  by (simp_all add: addLog_def)

lemma length_logs_addLog: "length (logs (addLog now1 msg ty s)) \<le> 100"
  by (simp add: logs_addLog length_slice_last)

lemma last_logs_addLog:
  "last (logs (addLog now1 msg ty s)) = \<lparr>timestamp = now1, message = msg, type_log = ty\<rparr>"
  by (simp add: logs_addLog slice_last_def)

lemma logs_addLog_nonempty: "logs (addLog now1 msg ty s) \<noteq> []"
  by (simp add: logs_addLog slice_last_def)

lemma distinct_ids: "distinct (map id_node SERVER_NODES)"
  by (simp add: SERVER_NODES_def)

lemma length_SERVER_NODES: "length SERVER_NODES = 5"
  by (simp add: SERVER_NODES_def)

lemma floor_random_bounds:
  assumes "is_random r" and "0 < n"
  shows "0 \<le> \<lfloor>r * real n\<rfloor>" and "\<lfloor>r * real n\<rfloor> < int n"
    and "nat \<lfloor>r * real n\<rfloor> < n"
proof -
  from assms have "0 \<le> r * real n" by (simp add: is_random_def)
  then show "0 \<le> \<lfloor>r * real n\<rfloor>" by simp
  from assms have "r * real n < real n" by (simp add: is_random_def)
  then show lt: "\<lfloor>r * real n\<rfloor> < int n" by (simp add: floor_less_iff)
  from assms(2) lt show "nat \<lfloor>r * real n\<rfloor> < n" by linarith
qed

lemma increment_bounds:
  assumes "is_random (increment_roll i)"
  shows "10 \<le> increment i" and "increment i \<le> 34"
proof -
  from floor_random_bounds(1,2) [OF assms, of 25]
  show "10 \<le> increment i" and "increment i \<le> 34"
    by (simp_all add: increment_def)
qed

subsection \<open>The rotation\<close>

lemma length_filter_other:
  assumes "distinct (map f xs)"
  shows "length (filter (\<lambda>n. f n \<noteq> k) xs) = length xs - (if k \<in> f ` set xs then 1 else 0)"
  using assms
proof (induction xs)
  case Nil
  then show ?case by simp
next
  case (Cons a xs)
  show ?case
  proof (cases "f a = k")
    case True
    with Cons.prems have "k \<notin> f ` set xs" by auto
    then have "filter (\<lambda>n. f n \<noteq> k) xs = xs" by (auto simp add: filter_id_conv)
    with True show ?thesis by simp
  next
    case False
    have "k \<in> f ` set xs \<Longrightarrow> 0 < length xs" by auto
    with False Cons show ?thesis by auto
  qed
qed

lemma length_availableServers_cases:
  "length (availableServers s) = 5 - (if id_node (activeServer s) \<in> id_node ` set SERVER_NODES then 1 else 0)"
  unfolding availableServers_def
  using length_filter_other [OF distinct_ids, of "id_node (activeServer s)"]
  by (simp add: length_SERVER_NODES)

lemma availableServers_pos: "0 < length (availableServers s)"
  unfolding length_availableServers_cases by simp

lemma availableServers_registry:
  "n \<in> set (availableServers s) \<Longrightarrow> n \<in> set SERVER_NODES \<and> id_node n \<noteq> id_node (activeServer s)"
  by (simp add: availableServers_def)

lemma length_availableServers:
  assumes "activeServer s \<in> set SERVER_NODES"
  shows "length (availableServers s) = 4"
  unfolding length_availableServers_cases using assms by simp

lemma distinct_availableServers: "distinct (availableServers s)"
  unfolding availableServers_def using distinct_ids by (simp add: distinct_map_filter distinct_map)

lemma index_SomeD: "index xs i = Some n \<Longrightarrow> n \<in> set xs"
proof -
  assume a: "index xs i = Some n"
  then have "0 \<le> i" and "i < int (length xs)" and n: "n = xs ! nat i"
    by (auto simp add: index_def split: if_splits)
  then have "nat i < length xs" by linarith
  then show ?thesis using n by simp
qed

lemma index_Some: "0 \<le> i \<Longrightarrow> i < int (length xs) \<Longrightarrow> index xs i = Some (xs ! nat i)"
  by (simp add: index_def)

lemma rotation_defined:
  assumes "is_random (server_roll i)"
  shows "\<exists>s1. rotation i s = Inr s1"
proof (cases "rotate_roll i > 0.85")
  case False
  then show ?thesis by (simp add: rotation_def)
next
  case True
  have pos: "0 < length (availableServers s)"
    by (rule availableServers_pos)
  from floor_random_bounds(1,2) [OF assms pos]
  have "index (availableServers s) \<lfloor>server_roll i * real (length (availableServers s))\<rfloor>
          = Some (availableServers s ! nat \<lfloor>server_roll i * real (length (availableServers s))\<rfloor>)"
    by (rule index_Some)
  with True show ?thesis by (simp add: rotation_def)
qed

lemma rotation_handoff:
  assumes "is_random (server_roll i)" and "rotate_roll i > 0.85"
  shows "rotation i s =
           Inr (addLog (now i)
                  (handoff (availableServers s ! nat \<lfloor>server_roll i * real (length (availableServers s))\<rfloor>)
                     \<lfloor>latency_roll i * 100 + 20\<rfloor>) Info
                  (s\<lparr>activeServer := availableServers s ! nat \<lfloor>server_roll i * real (length (availableServers s))\<rfloor>\<rparr>))"
    and "nat \<lfloor>server_roll i * real (length (availableServers s))\<rfloor> < length (availableServers s)"
proof -
  have pos: "0 < length (availableServers s)"
    by (rule availableServers_pos)
  note b = floor_random_bounds [OF assms(1) pos]
  from b(1,2) have "index (availableServers s) \<lfloor>server_roll i * real (length (availableServers s))\<rfloor>
          = Some (availableServers s ! nat \<lfloor>server_roll i * real (length (availableServers s))\<rfloor>)"
    by (rule index_Some)
  with assms(2) show "rotation i s =
           Inr (addLog (now i)
                  (handoff (availableServers s ! nat \<lfloor>server_roll i * real (length (availableServers s))\<rfloor>)
                     \<lfloor>latency_roll i * 100 + 20\<rfloor>) Info
                  (s\<lparr>activeServer := availableServers s ! nat \<lfloor>server_roll i * real (length (availableServers s))\<rfloor>\<rparr>))"
    by (simp add: rotation_def)
  from b(3) show "nat \<lfloor>server_roll i * real (length (availableServers s))\<rfloor> < length (availableServers s)" .
qed

lemma rotation_fields:
  assumes "rotation i s = Inr s1"
  shows "currentViews s1 = currentViews s" and "targetViews s1 = targetViews s"
    and "status s1 = status s" and "progress s1 = progress s"
    and "videoUrl s1 = videoUrl s" and "analysis s1 = analysis s"
    and "length (logs s1) \<le> 100 \<or> logs s1 = logs s"
  using assms
  by (auto simp add: rotation_def length_logs_addLog split: if_splits option.splits)

lemma rotation_activeServer:
  assumes "rotation i s = Inr s1"
  shows "activeServer s1 = activeServer s \<or>
         (activeServer s1 \<in> set SERVER_NODES \<and> id_node (activeServer s1) \<noteq> id_node (activeServer s))"
proof (cases "rotate_roll i > 0.85")
  case False
  with assms show ?thesis by (simp add: rotation_def)
next
  case True
  with assms obtain n where n: "index (availableServers s) \<lfloor>server_roll i * real (length (availableServers s))\<rfloor> = Some n"
    and s1: "s1 = addLog (now i) (handoff n \<lfloor>latency_roll i * 100 + 20\<rfloor>) Info (s\<lparr>activeServer := n\<rparr>)"
    by (auto simp add: rotation_def split: option.splits)
  from n have "n \<in> set (availableServers s)"
    by (rule index_SomeD)
  then show ?thesis using s1 availableServers_registry [of n s] by simp
qed

subsection \<open>The handlers and the interval callback\<close>

lemma handleStartBoost_invalid:
  assumes "\<not> valid_url (videoUrl s)"
  shows "handleStartBoost now1 now2 now3 s =
           addLog now1 ''Invalid source: Please provide a valid TikTok video link.'' Error s"
  using assms by (simp add: handleStartBoost_def valid_url_def)

lemma handleStartBoost_valid:
  assumes "valid_url (videoUrl s)"
  shows "status (handleStartBoost now1 now2 now3 s) = PROCESSING"
    and "currentViews (handleStartBoost now1 now2 now3 s) = 0"
    and "progress (handleStartBoost now1 now2 now3 s) = Some 0"
    and "analysis (handleStartBoost now1 now2 now3 s) = None"
    and "isAnalyzing (handleStartBoost now1 now2 now3 s) = True"
  using assms by (simp_all add: handleStartBoost_def valid_url_def Let_def)

lemma handleStartBoost_fields:
  "targetViews (handleStartBoost now1 now2 now3 s) = targetViews s"
  "videoUrl (handleStartBoost now1 now2 now3 s) = videoUrl s"
  "activeServer (handleStartBoost now1 now2 now3 s) = activeServer s"
  "length (logs (handleStartBoost now1 now2 now3 s)) \<le> 100"
  by (simp_all add: handleStartBoost_def Let_def length_logs_addLog)

lemma handleStartBoost_status:
  "status (handleStartBoost now1 now2 now3 s) = status s \<or>
   status (handleStartBoost now1 now2 now3 s) = PROCESSING"
  by (simp add: handleStartBoost_def Let_def)

lemma handleReset_fields:
  "status (handleReset now1 s) = IDLE"
  "currentViews (handleReset now1 s) = 0"
  "progress (handleReset now1 s) = Some 0"
  "analysis (handleReset now1 s) = None"
  "targetViews (handleReset now1 s) = targetViews s"
  "videoUrl (handleReset now1 s) = videoUrl s"
  "activeServer (handleReset now1 s) = activeServer s"
  "isAnalyzing (handleReset now1 s) = isAnalyzing s"
  "logs (handleReset now1 s) =
     [\<lparr>timestamp = now1, message = ''Dashboard synchronized. Ready for next campaign.'',
       type_log = Info\<rparr>]"
  by (simp_all add: handleReset_def logs_addLog slice_last_def)

lemma analysis_settled_fields:
  "status (analysis_settled now1 outcome s) = status s"
  "currentViews (analysis_settled now1 outcome s) = currentViews s"
  "progress (analysis_settled now1 outcome s) = progress s"
  "targetViews (analysis_settled now1 outcome s) = targetViews s"
  "videoUrl (analysis_settled now1 outcome s) = videoUrl s"
  "activeServer (analysis_settled now1 outcome s) = activeServer s"
  "length (logs (analysis_settled now1 outcome s)) \<le> 100"
  by (simp_all add: analysis_settled_def length_logs_addLog split: settled.splits)

lemma tick_done:
  assumes "targetViews s \<le> currentViews s"
  shows "tick i s =
           Inr ((addLog (now i) (task_successful (targetViews s)) Success
                  (s\<lparr>status := COMPLETED\<rparr>))\<lparr>currentViews := targetViews s\<rparr>)"
  using assms by (simp add: tick_def)

lemma tick_advance:
  assumes "currentViews s < targetViews s" and "rotation i s = Inr s1"
  shows "tick i s =
           Inr (s1\<lparr>progress := percent (min (currentViews s + increment i) (targetViews s))
                                  (targetViews s),
                   currentViews := min (currentViews s + increment i) (targetViews s)\<rparr>)"
  using assms by (simp add: tick_def Let_def)

lemma tick_advanceD:
  assumes "currentViews s < targetViews s" and "tick i s = Inr s'"
  obtains s1 where "rotation i s = Inr s1"
    and "s' = s1\<lparr>progress := percent (min (currentViews s + increment i) (targetViews s))
                                  (targetViews s),
                   currentViews := min (currentViews s + increment i) (targetViews s)\<rparr>"
  using assms by (auto simp add: tick_def Let_def split: sum.splits)

lemma tick_defined:
  assumes "is_random (server_roll i)"
  shows "\<exists>s'. tick i s = Inr s'"
proof (cases "currentViews s < targetViews s")
  case True
  from rotation_defined [OF assms] obtain s1 where "rotation i s = Inr s1" by blast
  with True show ?thesis by (simp add: tick_advance)
next
  case False
  then show ?thesis by (simp add: tick_done)
qed

lemma tick_fields:
  assumes "tick i s = Inr s'"
  shows "targetViews s' = targetViews s" and "videoUrl s' = videoUrl s"
    and "status s' = status s \<or> status s' = COMPLETED"
    and "length (logs s') \<le> 100 \<or> logs s' = logs s"
    and "activeServer s' = activeServer s \<or>
         (activeServer s' \<in> set SERVER_NODES \<and> id_node (activeServer s') \<noteq> id_node (activeServer s))"
proof -
  let ?goal = "targetViews s' = targetViews s \<and> videoUrl s' = videoUrl s \<and>
    (status s' = status s \<or> status s' = COMPLETED) \<and>
    (length (logs s') \<le> 100 \<or> logs s' = logs s) \<and>
    (activeServer s' = activeServer s \<or>
       (activeServer s' \<in> set SERVER_NODES \<and> id_node (activeServer s') \<noteq> id_node (activeServer s)))"
  have ?goal
  proof (cases "currentViews s < targetViews s")
    case True
    from True assms obtain s1 where r: "rotation i s = Inr s1"
      and s': "s' = s1\<lparr>progress := percent (min (currentViews s + increment i) (targetViews s))
                                  (targetViews s),
                   currentViews := min (currentViews s + increment i) (targetViews s)\<rparr>"
      by (rule tick_advanceD)
    from rotation_fields [OF r] rotation_activeServer [OF r] show ?thesis
      unfolding s' by simp
  next
    case False
    with assms have "s' = (addLog (now i) (task_successful (targetViews s)) Success
                  (s\<lparr>status := COMPLETED\<rparr>))\<lparr>currentViews := targetViews s\<rparr>"
      by (simp add: tick_done)
    then show ?thesis by (simp add: length_logs_addLog)
  qed
  then show "targetViews s' = targetViews s" and "videoUrl s' = videoUrl s"
    and "status s' = status s \<or> status s' = COMPLETED"
    and "length (logs s') \<le> 100 \<or> logs s' = logs s"
    and "activeServer s' = activeServer s \<or>
         (activeServer s' \<in> set SERVER_NODES \<and> id_node (activeServer s') \<noteq> id_node (activeServer s))"
    by simp_all
qed


lemma reachable_status: "reachable s \<Longrightarrow> status s \<noteq> ERROR"
proof (induction rule: reachable.induct)
  case reachable_init
  show ?case by (simp add: initial_state_def)
next
  case (reachable_step s e s')
  show ?case
  proof (cases e)
    case (IntervalTick i)
    with reachable_step.hyps have "tick i s = Inr s'" by simp
    from tick_fields(3) [OF this] reachable_step.IH show ?thesis by auto
  next
    case (ClickStart now1 now2 now3)
    with reachable_step.hyps have "s' = handleStartBoost now1 now2 now3 s" by simp
    with handleStartBoost_status [of now1 now2 now3 s] reachable_step.IH show ?thesis by auto
  qed (use reachable_step in \<open>auto simp add: handleReset_fields analysis_settled_fields\<close>)
qed

lemma reachable_activeServer: "reachable s \<Longrightarrow> activeServer s \<in> set SERVER_NODES"
proof (induction rule: reachable.induct)
  case reachable_init
  show ?case by (simp add: initial_state_def SERVER_NODES_def)
next
  case (reachable_step s e s')
  show ?case
  proof (cases e)
    case (IntervalTick i)
    with reachable_step.hyps have "tick i s = Inr s'" by simp
    from tick_fields(5) [OF this] reachable_step.IH show ?thesis by auto
  qed (use reachable_step in \<open>auto simp add: handleStartBoost_fields handleReset_fields analysis_settled_fields\<close>)
qed

subsection \<open>What each operation does to the log\<close>


lemma slice_last_short: "length xs < 100 \<Longrightarrow> slice_last 100 (xs @ [e]) = xs @ [e]"
  by (simp add: slice_last_def)

lemma slice_last_full: "length xs = 100 \<Longrightarrow> slice_last 100 (xs @ [e]) = tl xs @ [e]"
  by (cases xs) (simp_all add: slice_last_def)








subsection \<open>The status\<close>

lemma fire_status:
  assumes "fire e t = Inr t'" and "status t \<noteq> ERROR"
  shows "status t' \<noteq> ERROR"
proof (cases e)
  case (IntervalTick i)
  with assms have "tick i t = Inr t'" by simp
  from tick_fields(3) [OF this] assms(2) show ?thesis by auto
next
  case (ClickStart now1 now2 now3)
  with assms have "t' = handleStartBoost now1 now2 now3 t" by simp
  with handleStartBoost_status [of now1 now2 now3 t] assms(2) show ?thesis by auto
qed (use assms in \<open>auto simp add: handleReset_fields analysis_settled_fields\<close>)

lemma run_ticks_idle: "status s \<noteq> PROCESSING \<Longrightarrow> run_ticks inputs s = Inr s"
  by (cases inputs) simp_all

subsection \<open>The example campaign\<close>

lemma valid_example_url: "valid_url example_url"
  by (simp add: valid_url_def example_url_def)

lemma valid_example_input: "valid_tick_input example_input"
  by (simp add: valid_tick_input_def example_input_def is_random_def)

lemma reachable_example_started: "reachable example_started"
proof -
  have "reachable (initial_state\<lparr>videoUrl := example_url\<rparr>)"
    by (rule reachable_step [OF reachable_init, of "TypeUrl example_url"])
      (simp_all add: initial_state_def)
  then show ?thesis
    unfolding example_started_def
    by (rule reachable_step [where e = "ClickStart ''12:00:00'' ''12:00:00'' ''12:00:00''"])
      (simp_all add: initial_state_def)
qed

lemma example_started_fields:
  "status example_started = PROCESSING"
  "currentViews example_started = 0"
  "targetViews example_started = 500"
  "progress example_started = Some 0"
  "activeServer example_started = SERVER_NODES ! 0"
  "videoUrl example_started = example_url"
  unfolding example_started_def
  using valid_example_url
  by (simp_all add: handleStartBoost_valid handleStartBoost_fields initial_state_def)

subsection \<open>Uniform draws\<close>

lemma floor_scaled_eq:
  assumes "0 \<le> r" and "0 < n"
  shows "(nat \<lfloor>r * real n\<rfloor> = k) = (real k / real n \<le> r \<and> r < (real k + 1) / real n)"
proof -
  from assms have nn: "0 \<le> r * real n" by simp
  then have "0 \<le> \<lfloor>r * real n\<rfloor>" by simp
  then have "(nat \<lfloor>r * real n\<rfloor> = k) = (\<lfloor>r * real n\<rfloor> = int k)" by linarith
  also have "\<dots> = (real k \<le> r * real n \<and> r * real n < real k + 1)"
    by (simp add: floor_eq_iff)
  also have "\<dots> = (real k / real n \<le> r \<and> r < (real k + 1) / real n)"
    using assms(2) by (simp add: pos_divide_le_eq pos_less_divide_eq)
  finally show ?thesis .
qed

lemma increment_eq:
  assumes "is_random (increment_roll i)"
  shows "(increment i = d) =
         (10 \<le> d \<and> (real_of_int d - 10) / 25 \<le> increment_roll i \<and>
          increment_roll i < (real_of_int d - 9) / 25)"
proof -
  from assms have nn: "0 \<le> increment_roll i * 25" by (simp add: is_random_def)
  have "(increment i = d) = (\<lfloor>increment_roll i * 25\<rfloor> = d - 10)"
    by (auto simp add: increment_def)
  also have "\<dots> = (real_of_int (d - 10) \<le> increment_roll i * 25 \<and>
                     increment_roll i * 25 < real_of_int (d - 10) + 1)"
    by (simp only: floor_eq_iff)
  also have "\<dots> = ((real_of_int d - 10) / 25 \<le> increment_roll i \<and>
                     increment_roll i < (real_of_int d - 9) / 25)"
    by (auto simp add: field_simps)
  also have "\<dots> = (10 \<le> d \<and> (real_of_int d - 10) / 25 \<le> increment_roll i \<and>
          increment_roll i < (real_of_int d - 9) / 25)"
  proof -
    have "10 \<le> d" if "increment_roll i < (real_of_int d - 9) / 25"
    proof -
      from that nn have "0 < real_of_int d - 9" by simp
      then have "9 < d" by linarith
      then show ?thesis by simp
    qed
    then show ?thesis by blast
  qed
  finally show ?thesis .
qed

lemma tick_handoff:
  assumes "currentViews s < targetViews s" and "rotate_roll i > 0.85"
    and "is_random (server_roll i)"
  shows "tick i s =
     Inr ((addLog (now i)
             (handoff (availableServers s ! nat \<lfloor>server_roll i * real (length (availableServers s))\<rfloor>)
                \<lfloor>latency_roll i * 100 + 20\<rfloor>) Info
             (s\<lparr>activeServer :=
                  availableServers s ! nat \<lfloor>server_roll i * real (length (availableServers s))\<rfloor>\<rparr>))
          \<lparr>progress := percent (min (currentViews s + increment i) (targetViews s)) (targetViews s),
           currentViews := min (currentViews s + increment i) (targetViews s)\<rparr>)"
  using tick_advance [OF assms(1) rotation_handoff(1) [OF assms(3,2)]] .

lemma set_availableServers:
  "set (availableServers s) =
     {n \<in> set SERVER_NODES. id_node n \<noteq> id_node (activeServer s)}"
  by (auto simp add: availableServers_def)

subsection \<open>The analysis client\<close>

lemma example_candidate:
  "availableServers example_started !
     nat \<lfloor>server_roll example_input * real (length (availableServers example_started))\<rfloor> =
   SERVER_NODES ! 3"
  by (simp add: availableServers_def example_started_fields example_input_def SERVER_NODES_def)

lemma analyze_try_Throws:
  "generateContent (prompt url) = Throws \<Longrightarrow>
   analyze_try JSON_parse generateContent url = Inl ServiceError"
  by (simp add: analyze_try_def)

lemma analyze_try_unparseable:
  "generateContent (prompt url) = Response txt \<Longrightarrow>
   JSON_parse (case txt of None \<Rightarrow> ''{}'' | Some t \<Rightarrow> if t = [] then ''{}'' else t) = None \<Longrightarrow>
   analyze_try JSON_parse generateContent url = Inl SyntaxError"
  by (simp add: analyze_try_def)

lemma analyze_try_null:
  "generateContent (prompt url) = Response txt \<Longrightarrow>
   JSON_parse (case txt of None \<Rightarrow> ''{}'' | Some t \<Rightarrow> if t = [] then ''{}'' else t) = Some JNull \<Longrightarrow>
   analyze_try JSON_parse generateContent url = Inl TypeError"
  by (simp add: analyze_try_def)

lemma analyze_fulfilled:
  "\<exists>res. analyzeTikTokContent JSON_parse generateContent url = Fulfilled res"
  by (simp add: analyzeTikTokContent_def split: sum.splits)

subsection \<open>Double arithmetic\<close>

lemma bit_length_bounds:
  "0 < n \<Longrightarrow> 2 ^ (bit_length n - 1) \<le> n \<and> n < 2 ^ bit_length n"
proof (induction n rule: bit_length.induct)
  case (1 n)
  show ?case
  proof (cases "n div 2 = 0")
    case True
    with "1.prems" have "n = 1" by (simp add: div_eq_0_iff) 
    then show ?thesis by (simp add: bit_length.simps)
  next
    case False
    then have pos: "0 < n div 2" by simp
    from "1.IH" [OF _ pos] "1.prems"
    have ih: "2 ^ (bit_length (n div 2) - 1) \<le> n div 2" "n div 2 < 2 ^ bit_length (n div 2)"
      by simp_all
    have b: "bit_length n = Suc (bit_length (n div 2))"
      using "1.prems" by (subst bit_length.simps) simp
    have bp: "0 < bit_length (n div 2)"
      using pos by (subst bit_length.simps) simp
    then have "(2::nat) ^ bit_length (n div 2) = 2 * 2 ^ (bit_length (n div 2) - 1)"
      by (cases "bit_length (n div 2)") simp_all
    with ih show ?thesis unfolding b by simp linarith
  qed
qed

lemma pow2_powr: "pow2 e = 2 powr real_of_int e"
  by (simp add: pow2_def powr_real_of_int inverse_eq_divide)

lemma pow2_pos: "0 < pow2 e"
  by (simp add: pow2_powr)

lemma pow2_add: "pow2 (a + b) = pow2 a * pow2 b"
  by (simp add: pow2_powr powr_add)

lemma pow2_nat: "pow2 (int n) = 2 ^ n"
  by (simp add: pow2_def)

lemma pow2_less_iff: "pow2 a < pow2 b \<longleftrightarrow> a < b"
  by (simp add: pow2_powr)

lemma pow2_le_iff: "pow2 a \<le> pow2 b \<longleftrightarrow> a \<le> b"
  by (simp add: pow2_powr)

lemma pow2_minus: "pow2 (- a) = 1 / pow2 a"
  by (simp add: pow2_powr powr_minus inverse_eq_divide)

lemma exponent_bounds:
  assumes "0 < x"
  shows "pow2 (exponent x) \<le> x" and "x < pow2 (exponent x + 1)"
proof -
  have "pow2 (exponent x) \<le> x \<and> x < pow2 (exponent x + 1)"
  proof (cases "1 \<le> x")
    case True
    let ?n = "nat \<lfloor>x\<rfloor>"
    let ?b = "bit_length ?n"
    from True have n: "0 < ?n" by simp
    from bit_length_bounds [OF n] have lo: "2 ^ (?b - 1) \<le> ?n" and hi: "?n < 2 ^ ?b" by simp_all
    have bp: "0 < ?b" using n by (subst bit_length.simps) simp
    have e: "exponent x = int (?b - 1)" using True bp by (simp add: exponent_def)
    have e1: "exponent x + 1 = int ?b" using e bp by simp
    have "real ?n \<le> x" using True by simp
    moreover from lo have "(2::real) ^ (?b - 1) \<le> real ?n"
      by (metis of_nat_le_iff of_nat_numeral of_nat_power)
    ultimately have a: "pow2 (exponent x) \<le> x" unfolding e pow2_nat by (rule order_trans [rotated])
    from hi have "Suc ?n \<le> 2 ^ ?b" by (rule Suc_leI)
    then have "real (Suc ?n) \<le> 2 ^ ?b"
      by (metis of_nat_le_iff of_nat_numeral of_nat_power)
    moreover have "x < real (Suc ?n)" using True by simp linarith
    ultimately have "x < pow2 (exponent x + 1)" unfolding e1 pow2_nat by simp
    with a show ?thesis by simp
  next
    case False
    define y where "y = 1 / x"
    define m where "m = \<lceil>y\<rceil>"
    define n where "n = nat (m - 1)"
    define b where "b = bit_length n"
    from False assms have y: "1 < y" by (simp add: y_def)
    then have m: "2 \<le> m" unfolding m_def by (simp add: le_ceiling_iff)
    then have n: "0 < n" and nm: "int n = m - 1" by (simp_all add: n_def)
    from bit_length_bounds [OF n] have lo: "2 ^ (b - 1) \<le> n" and hi: "n < 2 ^ b"
      by (simp_all add: b_def)
    have bp: "0 < b" unfolding b_def using n by (subst bit_length.simps) simp
    have e: "exponent x = - int b"
      using False by (simp add: exponent_def b_def n_def m_def y_def)
    have e1: "exponent x + 1 = - int (b - 1)" using e bp by simp
    from hi have "int n < 2 ^ b"
      by (metis of_nat_less_iff of_nat_numeral of_nat_power)
    with nm have "m \<le> 2 ^ b" by simp
    then have "real_of_int m \<le> 2 ^ b"
      by (metis of_int_le_iff of_int_numeral of_int_power)
    moreover have "y \<le> real_of_int m" unfolding m_def by simp
    ultimately have "y \<le> 2 ^ b" by linarith
    then have "1 / 2 ^ b \<le> x" using assms by (simp add: y_def field_simps)
    then have a: "pow2 (exponent x) \<le> x" unfolding e pow2_minus pow2_nat .
    from lo have "(2::int) ^ (b - 1) \<le> int n"
      by (metis of_nat_le_iff of_nat_numeral of_nat_power)
    with nm have "(2::int) ^ (b - 1) \<le> m - 1" by simp
    then have "(2::real) ^ (b - 1) \<le> real_of_int (m - 1)"
      by (metis of_int_le_iff of_int_numeral of_int_power)
    moreover have "real_of_int (m - 1) < y" unfolding m_def by simp linarith
    ultimately have "2 ^ (b - 1) < y" by linarith
    then have "x < 1 / 2 ^ (b - 1)" using assms by (simp add: y_def field_simps)
    then have "x < pow2 (exponent x + 1)" unfolding e1 pow2_minus pow2_nat .
    with a show ?thesis by simp
  qed
  then show "pow2 (exponent x) \<le> x" and "x < pow2 (exponent x + 1)" by simp_all
qed

lemma round_even_error: "\<bar>real_of_int (round_even x) - x\<bar> \<le> 1 / 2"
  unfolding round_even_def by (simp add: abs_le_iff)

lemma binary64_error:
  assumes "pow2 (- 1022) \<le> x" and "x \<le> pow2 1023"
  shows "\<exists>y. binary64 x = Some y \<and> \<bar>y - x\<bar> \<le> x / 2 ^ 53"
proof -
  define e where "e = exponent x"
  define q where "q = pow2 (e - 52)"
  define r where "r = real_of_int (round_even (x / q))"
  from assms(1) pow2_pos [of "- 1022"] have x: "0 < x" by linarith
  from exponent_bounds [OF x] have lo: "pow2 e \<le> x" and hi: "x < pow2 (e + 1)"
    by (simp_all add: e_def)
  from assms(1) hi have "pow2 (- 1022) < pow2 (e + 1)" by linarith
  then have "- 1022 < e + 1" by (simp only: pow2_less_iff)
  then have m: "max e (- 1022) = e" by simp
  have qpos: "0 < q" unfolding q_def by (rule pow2_pos)
  have "q = pow2 e * pow2 (- 52)" unfolding q_def using pow2_add [of e "- 52"] by simp
  also have "pow2 (- 52) = 1 / 2 ^ 52" by (simp add: pow2_def)
  finally have q: "q = pow2 e / 2 ^ 52" by simp
  have "\<bar>r - x / q\<bar> \<le> 1 / 2" unfolding r_def by (rule round_even_error)
  then have "\<bar>r - x / q\<bar> * q \<le> 1 / 2 * q"
    using qpos by (intro mult_right_mono) simp_all
  moreover have "\<bar>r - x / q\<bar> * q = \<bar>r * q - x\<bar>"
  proof -
    have "\<bar>r - x / q\<bar> * q = \<bar>r - x / q\<bar> * \<bar>q\<bar>" using qpos by simp
    also have "\<dots> = \<bar>(r - x / q) * q\<bar>" by (simp only: abs_mult)
    also have "(r - x / q) * q = r * q - x" using qpos by (simp add: field_simps)
    finally show ?thesis .
  qed
  ultimately have "\<bar>r * q - x\<bar> \<le> q / 2" by simp
  also have "q / 2 = pow2 e / 2 ^ 53" unfolding q by simp
  also have "\<dots> \<le> x / 2 ^ 53" using lo by (simp add: divide_right_mono)
  finally have err: "\<bar>r * q - x\<bar> \<le> x / 2 ^ 53" .
  have "x / 2 ^ 53 \<le> x" using x by (simp add: field_simps)
  with err have "\<bar>r * q\<bar> \<le> 2 * x" by linarith
  also have "\<dots> \<le> 2 * pow2 1023" using assms(2) by simp
  also have "2 * pow2 1023 = pow2 1024" using pow2_add [of 1 1023] by (simp add: pow2_def)
  finally have "\<bar>r * q\<bar> \<le> pow2 1024" .
  moreover have "\<bar>r * q\<bar> \<noteq> pow2 1024"
  proof
    assume eq: "\<bar>r * q\<bar> = pow2 1024"
    have "x + x / 2 ^ 53 < 2 * x" using x by (simp add: field_simps)
    with err eq have "pow2 1024 < 2 * x" by linarith
    also have "\<dots> \<le> 2 * pow2 1023" using assms(2) by simp
    also have "2 * pow2 1023 = pow2 1024" using pow2_add [of 1 1023] by (simp add: pow2_def)
    finally show False by simp
  qed
  ultimately have no: "\<not> pow2 1024 \<le> \<bar>r * q\<bar>" by linarith
  have "binary64 x = Some (r * q)"
    using x no unfolding binary64_def Let_def
    by (simp add: m e_def [symmetric] q_def [symmetric] r_def [symmetric])
  with err show ?thesis by blast
qed

lemma binary64_error_range:
  assumes "1 / 2 ^ 50 \<le> x" and "x \<le> 128"
  shows "\<exists>y. binary64 x = Some y \<and> \<bar>y - x\<bar> \<le> x / 2 ^ 53"
proof (rule binary64_error)
  have "pow2 (- 1022) \<le> pow2 (- 50)" by (simp only: pow2_le_iff)
  also have "pow2 (- 50) = 1 / 2 ^ 50" by (simp add: pow2_def)
  finally show "pow2 (- 1022) \<le> x" using assms(1) by linarith
  have "pow2 7 \<le> pow2 1023" by (simp only: pow2_le_iff)
  moreover have "pow2 7 = 128" by (simp add: pow2_def)
  ultimately show "x \<le> pow2 1023" using assms(2) by linarith
qed

lemma binary64_zero: "binary64 0 = Some 0"
  by (simp add: binary64_def)

lemma percent_zero: "0 < target \<Longrightarrow> percent 0 target = Some 0"
  by (simp add: percent_def binary64_zero)

lemma binary64_one: "binary64 1 = Some 1"
  by (simp add: binary64_def exponent_def bit_length.simps pow2_def round_even_def Let_def)

lemma binary64_hundred: "binary64 100 = Some 100"
  by (simp add: binary64_def exponent_def bit_length.simps pow2_def round_even_def Let_def)

lemma percent_full: "0 < target \<Longrightarrow> percent target target = Some 100"
  by (simp add: percent_def binary64_one binary64_hundred)

lemma percent_bounds:
  assumes "0 \<le> c" and "c \<le> t" and "0 < t" and "t \<le> 2 ^ 44"
  shows "\<exists>p. percent c t = Some p \<and>
           \<lfloor>real_of_int c / real_of_int t * 100\<rfloor> - 1 \<le> p \<and>
           p \<le> \<lfloor>real_of_int c / real_of_int t * 100\<rfloor> \<and>
           (\<not> t dvd 100 * c \<longrightarrow> p = \<lfloor>real_of_int c / real_of_int t * 100\<rfloor>)"
proof (cases "c = 0")
  case True
  with assms(3) show ?thesis by (simp add: percent_zero)
next
  case False
  with assms(1) have c: "1 \<le> c" by simp
  define x where "x = real_of_int c / real_of_int t"
  define v where "v = x * 100"
  define k where "k = (100 * c) div t"
  define r where "r = (100 * c) mod t"
  have tr: "0 < real_of_int t" using assms(3) by simp
  have t44: "real_of_int t \<le> 2 ^ 44"
    using assms(4) by (metis of_int_le_iff of_int_numeral of_int_power)
  have x1: "x \<le> 1" unfolding x_def using assms(2,3) by simp
  have "1 / real_of_int t \<le> x" unfolding x_def using c tr by (simp add: divide_right_mono)
  moreover have inv: "1 / 2 ^ 44 \<le> 1 / real_of_int t"
    using tr t44 by (simp add: field_simps)
  ultimately have xlo: "1 / 2 ^ 44 \<le> x" by linarith
  have "\<exists>y. binary64 x = Some y \<and> \<bar>y - x\<bar> \<le> x / 2 ^ 53"
    using xlo x1 by (intro binary64_error_range) simp_all
  then obtain q where q: "binary64 x = Some q" and qe: "\<bar>q - x\<bar> \<le> x / 2 ^ 53" by blast
  have xs: "x / 2 ^ 53 \<le> 1 / 2 ^ 53" using x1 by (simp add: divide_right_mono)
  have xh: "x / 2 ^ 53 \<le> x / 2" using xlo by (simp add: field_simps)
  from qe xs x1 have qhi: "q \<le> 1 + 1 / 2 ^ 53" by linarith
  from qe xh have qlo: "x / 2 \<le> q" by linarith
  have y1: "1 / 2 ^ 50 \<le> q * 100" using qlo xlo by simp
  have y2: "q * 100 \<le> 128" using qhi by simp
  from binary64_error_range [OF y1 y2]
  obtain p where p: "binary64 (q * 100) = Some p"
    and pe: "\<bar>p - q * 100\<bar> \<le> q * 100 / 2 ^ 53" by blast
  have "q * 100 / 2 ^ 53 \<le> 101 / 2 ^ 53" using qhi by (simp add: field_simps)
  with pe have pe': "\<bar>p - q * 100\<bar> \<le> 101 / 2 ^ 53" by (rule order_trans)
  have "q * 100 - v = (q - x) * 100" unfolding v_def by (simp add: algebra_simps)
  then have "\<bar>q * 100 - v\<bar> = \<bar>q - x\<bar> * 100" by (simp only: abs_mult)
  with qe xs have "\<bar>q * 100 - v\<bar> \<le> 100 / 2 ^ 53" by (simp; linarith?)
  then have "\<bar>p - q * 100\<bar> + \<bar>q * 100 - v\<bar> \<le> 101 / 2 ^ 53 + 100 / 2 ^ 53"
    using pe' by (intro add_mono)
  moreover have "\<bar>p - v\<bar> \<le> \<bar>p - q * 100\<bar> + \<bar>q * 100 - v\<bar>" by linarith
  ultimately have "\<bar>p - v\<bar> \<le> 101 / 2 ^ 53 + 100 / 2 ^ 53" by (rule order_trans [rotated])
  then have "\<bar>p - v\<bar> \<le> 201 / 2 ^ 53" by simp
  then have close: "\<bar>p - v\<bar> < 1 / 2 ^ 44" by simp
  have pc: "percent c t = Some \<lfloor>p\<rfloor>"
    using assms(3) q p by (simp add: percent_def x_def [symmetric])
  have ct: "100 * c = k * t + r" unfolding k_def r_def by simp
  have r0: "0 \<le> r" and rt: "r < t" unfolding r_def using assms(3) by simp_all
  have "v = real_of_int (100 * c) / real_of_int t" unfolding v_def x_def by simp
  also have "\<dots> = real_of_int k + real_of_int r / real_of_int t"
    unfolding ct using tr by (simp add: field_simps)
  finally have v: "v = real_of_int k + real_of_int r / real_of_int t" .
  have frac0: "0 \<le> real_of_int r / real_of_int t" using r0 tr by simp
  have frac1: "real_of_int r / real_of_int t \<le> 1 - 1 / real_of_int t"
  proof -
    from rt have "r \<le> t - 1" by simp
    then have "real_of_int r \<le> real_of_int t - 1" by linarith
    then have "real_of_int r / real_of_int t \<le> (real_of_int t - 1) / real_of_int t"
      using tr by (simp add: divide_right_mono)
    also have "\<dots> = 1 - 1 / real_of_int t" using tr by (simp add: field_simps)
    finally show ?thesis .
  qed
  have fl: "\<lfloor>v\<rfloor> = k"
    unfolding v using frac0 frac1 tr by (intro floor_unique) (simp_all add: field_simps)
  define eps :: real where "eps = 1 / 2 ^ 44"
  define f where "f = real_of_int r / real_of_int t"
  define it where "it = 1 / real_of_int t"
  have close': "\<bar>p - v\<bar> < eps" using close by (simp only: eps_def)
  have v': "v = real_of_int k + f" using v by (simp only: f_def)
  have f0: "0 \<le> f" using frac0 by (simp only: f_def)
  have f1: "f \<le> 1 - it" using frac1 by (simp only: f_def it_def)
  have ei: "eps \<le> it" using inv by (simp only: eps_def it_def)
  have up: "p < real_of_int k + 1" using close' v' f1 ei by linarith
  have dn: "real_of_int k - 1 < p"
  proof -
    have "eps \<le> 1" unfolding eps_def by simp
    with close' v' f0 show ?thesis by linarith
  qed
  from up have le: "\<lfloor>p\<rfloor> \<le> k" by (simp add: floor_le_iff)
  from dn have "real_of_int (k - 1) \<le> p" by simp
  then have ge: "k - 1 \<le> \<lfloor>p\<rfloor>" by (simp only: le_floor_iff)
  have eq: "\<lfloor>p\<rfloor> = k" if nd: "\<not> t dvd 100 * c"
  proof -
    from nd have "r \<noteq> 0" unfolding r_def by (simp add: dvd_eq_mod_eq_0)
    with r0 have "1 \<le> r" by simp
    then have "1 \<le> real_of_int r" by simp
    then have "1 / real_of_int t \<le> real_of_int r / real_of_int t"
      using tr by (simp add: divide_right_mono)
    then have "it \<le> f" by (simp only: f_def it_def)
    with close' v' ei have "real_of_int k \<le> p" by linarith
    then have "k \<le> \<lfloor>p\<rfloor>" by (simp only: le_floor_iff)
    with le show ?thesis by simp
  qed
  from pc le ge eq show ?thesis
    unfolding v_def [symmetric, unfolded x_def] fl by simp
qed

subsection \<open>The counter\<close>


lemma tick_advance_counter:
  assumes "currentViews s < targetViews s" and "tick i s = Inr s'"
  shows "currentViews s' = min (currentViews s + increment i) (targetViews s)"
    and "progress s' = percent (currentViews s') (targetViews s)"
    and "status s' = status s"
proof -
  from assms obtain s1 where r: "rotation i s = Inr s1"
    and s': "s' = s1\<lparr>progress := percent (min (currentViews s + increment i) (targetViews s))
                                  (targetViews s),
                   currentViews := min (currentViews s + increment i) (targetViews s)\<rparr>"
    by (rule tick_advanceD)
  show "currentViews s' = min (currentViews s + increment i) (targetViews s)"
    unfolding s' by simp
  show "progress s' = percent (currentViews s') (targetViews s)"
    unfolding s' by simp
  show "status s' = status s"
    unfolding s' using rotation_fields(3) [OF r] by simp
qed

lemma tick_done_fields:
  assumes "targetViews s \<le> currentViews s" and "tick i s = Inr s'"
  shows "currentViews s' = targetViews s" and "status s' = COMPLETED"
    and "progress s' = progress s" and "targetViews s' = targetViews s"
    and "logs s' \<noteq> []"
    and "last (logs s') =
           \<lparr>timestamp = now i, message = task_successful (targetViews s), type_log = Success\<rparr>"
proof -
  from assms have s': "s' = (addLog (now i) (task_successful (targetViews s)) Success
                  (s\<lparr>status := COMPLETED\<rparr>))\<lparr>currentViews := targetViews s\<rparr>"
    by (simp add: tick_done)
  show "currentViews s' = targetViews s" and "status s' = COMPLETED"
    and "progress s' = progress s" and "targetViews s' = targetViews s"
    unfolding s' by simp_all
  show "logs s' \<noteq> []" unfolding s' by (simp add: logs_addLog_nonempty)
  show "last (logs s') =
           \<lparr>timestamp = now i, message = task_successful (targetViews s), type_log = Success\<rparr>"
    unfolding s' by (simp add: last_logs_addLog)
qed

lemma reachable_counter:
  assumes "reachable s"
  shows "status s = PROCESSING \<longrightarrow>
           0 \<le> currentViews s \<and>
           (0 \<le> targetViews s \<longrightarrow> currentViews s \<le> targetViews s) \<and>
           (0 < targetViews s \<longrightarrow> progress s = percent (currentViews s) (targetViews s))"
  using assms
proof (induction rule: reachable.induct)
  case reachable_init
  show ?case by (simp add: initial_state_def)
next
  case (reachable_step s e s')
  show ?case
  proof (cases e)
    case (TypeUrl u)
    with reachable_step.hyps show ?thesis by auto
  next
    case (TypeTarget n)
    with reachable_step.hyps show ?thesis by auto
  next
    case (ClickPreset n)
    with reachable_step.hyps show ?thesis by auto
  next
    case (ClickStart now1 now2 now3)
    with reachable_step.hyps have s': "s' = handleStartBoost now1 now2 now3 s"
      and np: "status s \<noteq> PROCESSING" by auto
    show ?thesis
    proof (cases "valid_url (videoUrl s)")
      case True
      from handleStartBoost_valid [OF True] show ?thesis
        unfolding s' by (simp add: handleStartBoost_fields percent_zero)
    next
      case False
      then have "status s' = status s"
        unfolding s' by (simp add: handleStartBoost_invalid)
      with np show ?thesis by simp
    qed
  next
    case (ClickAbort now1)
    with reachable_step.hyps show ?thesis by (auto simp add: handleReset_fields)
  next
    case (IntervalTick i)
    with reachable_step.hyps have t: "tick i s = Inr s'" and p: "status s = PROCESSING"
      and v: "valid_tick_input i" by auto
    from p reachable_step.IH have nn: "0 \<le> currentViews s" by simp
    show ?thesis
    proof (cases "currentViews s < targetViews s")
      case True
      from v have "10 \<le> increment i"
        by (intro increment_bounds) (simp add: valid_tick_input_def)
      with nn True tick_advance_counter [OF True t] tick_fields(1) [OF t]
      show ?thesis by auto
    next
      case False
      then have "targetViews s \<le> currentViews s" by simp
      from tick_done_fields(2) [OF this t] show ?thesis by simp
    qed
  next
    case (AnalysisSettled now1 outcome)
    with reachable_step show ?thesis by (auto simp add: analysis_settled_fields)
  qed
qed

lemma example_increment: "increment example_input = 22"
  by (simp add: increment_def example_input_def)

subsection \<open>The tick loop\<close>

lemma toString_nodes: "toString (int (length SERVER_NODES)) = ''5''"
  by (simp add: length_SERVER_NODES toString_def string_of_nat.simps)

lemma run_ticks_completes:
  assumes "status s = PROCESSING" and "currentViews s \<le> targetViews s"
    and "\<forall>i\<in>set inputs. valid_tick_input i"
    and "nat ((targetViews s - currentViews s + 9) div 10) < length inputs"
  shows "\<exists>s'. run_ticks inputs s = Inr s' \<and> status s' = COMPLETED \<and>
           currentViews s' = targetViews s \<and> targetViews s' = targetViews s \<and>
           logs s' \<noteq> [] \<and> message (last (logs s')) = task_successful (targetViews s) \<and>
           type_log (last (logs s')) = Success"
  using assms
proof (induction inputs arbitrary: s)
  case Nil
  then show ?case by simp
next
  case (Cons i inputs)
  from Cons.prems(3) have v: "valid_tick_input i" by simp
  then have r: "is_random (server_roll i)" and ri: "is_random (increment_roll i)"
    by (simp_all add: valid_tick_input_def)
  from tick_defined [OF r] obtain s1 where t: "tick i s = Inr s1" by blast
  with Cons.prems(1) have run: "run_ticks (i # inputs) s = run_ticks inputs s1" by simp
  show ?case
  proof (cases "currentViews s < targetViews s")
    case False
    then have ge: "targetViews s \<le> currentViews s" by simp
    note d = tick_done_fields [OF ge t]
    from d(2) have "run_ticks inputs s1 = Inr s1" by (simp add: run_ticks_idle)
    with run d show ?thesis by simp
  next
    case True
    note a = tick_advance_counter [OF True t]
    have tv: "targetViews s1 = targetViews s" using t by (rule tick_fields(1))
    from increment_bounds(1) [OF ri] have inc: "10 \<le> increment i" .
    have p1: "status s1 = PROCESSING" using a(3) Cons.prems(1) by simp
    have le1: "currentViews s1 \<le> targetViews s1" unfolding a(1) tv by simp
    have "nat ((targetViews s1 - currentViews s1 + 9) div 10) < length inputs"
    proof -
      let ?T = "targetViews s" and ?c = "currentViews s" and ?d = "increment i"
      from True have one: "1 \<le> (?T - ?c + 9) div 10" by linarith
      have "(?T - min (?c + ?d) ?T + 9) div 10 + 1 \<le> (?T - ?c + 9) div 10"
      proof (cases "?c + ?d \<le> ?T")
        case True
        from inc have "(?T - (?c + ?d) + 9) div 10 \<le> (?T - ?c + 9 - 10) div 10"
          by (intro zdiv_mono1) simp_all
        also have "\<dots> = (?T - ?c + 9) div 10 - 1" by linarith
        finally show ?thesis using True by (simp add: min_def)
      next
        case False
        with one show ?thesis by (simp add: min_def)
      qed
      then have "(targetViews s1 - currentViews s1 + 9) div 10 + 1 \<le> (?T - ?c + 9) div 10"
        unfolding a(1) tv .
      with one Cons.prems(4) show ?thesis by simp
    qed
    with Cons.IH [OF p1 le1] Cons.prems(3)
    have "\<exists>s'. run_ticks inputs s1 = Inr s' \<and> status s' = COMPLETED \<and>
           currentViews s' = targetViews s1 \<and> targetViews s' = targetViews s1 \<and>
           logs s' \<noteq> [] \<and> message (last (logs s')) = task_successful (targetViews s1) \<and>
           type_log (last (logs s')) = Success"
      by simp
    then show ?thesis unfolding run tv .
  qed
qed

lemma run_ticks_append:
  "run_ticks (xs @ ys) s =
     (case run_ticks xs s of Inl e \<Rightarrow> Inl e | Inr s1 \<Rightarrow> run_ticks ys s1)"
proof (induction xs arbitrary: s)
  case Nil
  show ?case by simp
next
  case (Cons x xs)
  show ?case
  proof (cases "status s = PROCESSING")
    case True
    then show ?thesis by (cases "tick x s") (simp_all add: Cons.IH)
  next
    case False
    then show ?thesis by (simp add: run_ticks_idle)
  qed
qed

lemma task_successful_text:
  "task_successful target =
     ''Task successful: '' @ toString target @ '' views distributed across 5 nodes.''"
  by (simp add: task_successful_def toString_nodes)

subsection \<open>A campaign with a negative target\<close>

lemma reachable_example_negative: "reachable example_negative"
proof -
  have "reachable (initial_state\<lparr>videoUrl := example_url\<rparr>)"
    by (rule reachable_step [OF reachable_init, of "TypeUrl example_url"])
      (simp_all add: initial_state_def)
  then have "reachable (initial_state\<lparr>videoUrl := example_url, targetViews := - 5\<rparr>)"
    by (rule reachable_step [where e = "TypeTarget (- 5)"])
      (simp_all add: initial_state_def)
  then show ?thesis
    unfolding example_negative_def
    by (rule reachable_step [where e = "ClickStart ''12:00:00'' ''12:00:00'' ''12:00:00''"])
      (simp_all add: initial_state_def)
qed

lemma example_negative_fields:
  "status example_negative = PROCESSING"
  "currentViews example_negative = 0"
  "targetViews example_negative = - 5"
  unfolding example_negative_def
  using valid_example_url
  by (simp_all add: handleStartBoost_valid handleStartBoost_fields initial_state_def)

subsection \<open>A campaign with the target 100\<close>

lemma reachable_example_hundred: "reachable example_hundred"
proof -
  have "reachable (initial_state\<lparr>videoUrl := example_url\<rparr>)"
    by (rule reachable_step [OF reachable_init, of "TypeUrl example_url"])
      (simp_all add: initial_state_def)
  then have "reachable (initial_state\<lparr>videoUrl := example_url, targetViews := 100\<rparr>)"
    by (rule reachable_step [where e = "TypeTarget 100"])
      (simp_all add: initial_state_def)
  then show ?thesis
    unfolding example_hundred_def
    by (rule reachable_step [where e = "ClickStart ''12:00:00'' ''12:00:00'' ''12:00:00''"])
      (simp_all add: initial_state_def)
qed

lemma example_hundred_fields:
  "status example_hundred = PROCESSING"
  "currentViews example_hundred = 0"
  "targetViews example_hundred = 100"
  unfolding example_hundred_def
  using valid_example_url
  by (simp_all add: handleStartBoost_valid handleStartBoost_fields initial_state_def)

lemma valid_example_roll: "valid_tick_input example_roll"
  by (simp add: valid_tick_input_def example_roll_def is_random_def)

lemma example_roll_increment: "increment example_roll = 29"
  by (simp add: increment_def example_roll_def)

lemma percent_29_100: "percent 29 100 = Some 28"
  by (simp add: percent_def binary64_def exponent_def bit_length.simps pow2_def
      round_even_def Let_def)

lemma tick_example_hundred: "tick example_roll example_hundred = Inr example_hundred_ticked"
proof -
  have lt: "currentViews example_hundred < targetViews example_hundred"
    by (simp add: example_hundred_fields)
  have r: "rotation example_roll example_hundred = Inr example_hundred"
    by (simp add: rotation_def example_roll_def)
  from tick_advance [OF lt r] show ?thesis
    by (simp add: example_hundred_fields example_roll_increment percent_29_100
        example_hundred_ticked_def)
qed

subsection \<open>A full log\<close>



section \<open>The claims\<close>

subsection \<open>The log history\<close>



subsection \<open>The status and the reset\<close>

text \<open>
  C9: every state reachable from the initial one has status \<open>IDLE\<close>, \<open>PROCESSING\<close> or
  \<open>COMPLETED\<close>, and no operation, from whatever state, changes the status to \<open>ERROR\<close>.
\<close>

theorem status_never_error:
  assumes "reachable s" and "fire e t = Inr t'" and "status t \<noteq> ERROR"
  shows "(status s = IDLE \<or> status s = PROCESSING \<or> status s = COMPLETED) \<and>
         status t' \<noteq> ERROR"
proof -
  from assms(1) have "status s \<noteq> ERROR" by (rule reachable_status)
  then have "status s = IDLE \<or> status s = PROCESSING \<or> status s = COMPLETED"
    by (cases "status s") simp_all
  moreover from assms(2,3) have "status t' \<noteq> ERROR" by (rule fire_status)
  ultimately show ?thesis by simp
qed

theorem status_never_error_witness:
  "(status initial_state = IDLE \<or> status initial_state = PROCESSING \<or>
      status initial_state = COMPLETED) \<and>
   status (handleReset ''12:00:00'' initial_state) \<noteq> ERROR \<and>
   (status example_started = IDLE \<or> status example_started = PROCESSING \<or>
      status example_started = COMPLETED) \<and>
   (\<exists>s'. tick example_input example_started = Inr s' \<and> status s' \<noteq> ERROR)"
proof -
  have f: "fire (ClickAbort ''12:00:00'') initial_state = Inr (handleReset ''12:00:00'' initial_state)"
    by simp
  have n: "status initial_state \<noteq> ERROR" by (simp add: initial_state_def)
  note a = status_never_error [OF reachable_init f n]
  from tick_defined [of example_input example_started] valid_example_input
  obtain s' where t: "tick example_input example_started = Inr s'"
    by (auto simp add: valid_tick_input_def)
  then have f': "fire (IntervalTick example_input) example_started = Inr s'" by simp
  have n': "status example_started \<noteq> ERROR" by (simp add: example_started_fields)
  note b = status_never_error [OF reachable_example_started f' n']
  from b t have "\<exists>s'. tick example_input example_started = Inr s' \<and> status s' \<noteq> ERROR"
    by blast
  with a b show ?thesis by (intro conjI) (elim conjE, assumption)+
qed

text \<open>
  C7: from any state, the reset sets the status to \<open>IDLE\<close>, the counter and the progress
  to 0, clears the analysis, and leaves a log of exactly one entry, of type \<open>Info\<close>.
  Afterwards the interval does not exist: no run of the callback is enabled, and the tick
  loop leaves the state as it is.
\<close>

theorem reset_clears_campaign:
  "status (handleReset now1 s) = IDLE \<and>
   currentViews (handleReset now1 s) = 0 \<and>
   progress (handleReset now1 s) = Some 0 \<and>
   analysis (handleReset now1 s) = None \<and>
   logs (handleReset now1 s) =
     [\<lparr>timestamp = now1, message = ''Dashboard synchronized. Ready for next campaign.'',
       type_log = Info\<rparr>] \<and>
   fire (ClickAbort now1) s = Inr (handleReset now1 s) \<and>
   \<not> enabled (handleReset now1 s) (IntervalTick i) \<and>
   run_ticks inputs (handleReset now1 s) = Inr (handleReset now1 s)"
  by (simp add: handleReset_fields run_ticks_idle)

theorem reset_clears_campaign_witness:
  "status (handleReset ''12:00:05'' example_started) = IDLE \<and>
   currentViews (handleReset ''12:00:05'' example_started) = 0 \<and>
   progress (handleReset ''12:00:05'' example_started) = Some 0 \<and>
   analysis (handleReset ''12:00:05'' example_started) = None \<and>
   length (logs (handleReset ''12:00:05'' example_started)) = 1 \<and>
   \<not> enabled (handleReset ''12:00:05'' example_started) (IntervalTick example_input) \<and>
   run_ticks [example_input, example_input] (handleReset ''12:00:05'' example_started) =
     Inr (handleReset ''12:00:05'' example_started)"
  using reset_clears_campaign [of "''12:00:05''" example_started example_input
      "[example_input, example_input]"]
  by simp

subsection \<open>The rotation\<close>

text \<open>
  C10: in every reachable state the active server is one of the five nodes of the
  registry, so four candidates remain for the rotation; for every value of the random
  source the index drawn is one of 0, 1, 2, 3, the element read there is a node of the
  registry, and neither the rotation nor the callback raises an error.
\<close>

theorem rotation_index_in_bounds:
  assumes "reachable s" and "is_random (server_roll i)"
  shows "activeServer s \<in> set SERVER_NODES \<and> length SERVER_NODES = 5 \<and>
         length (availableServers s) = 4 \<and>
         0 \<le> \<lfloor>server_roll i * real (length (availableServers s))\<rfloor> \<and>
         \<lfloor>server_roll i * real (length (availableServers s))\<rfloor> < 4 \<and>
         (\<exists>n. index (availableServers s)
                 \<lfloor>server_roll i * real (length (availableServers s))\<rfloor> = Some n \<and>
              n \<in> set SERVER_NODES) \<and>
         (\<exists>s1. rotation i s = Inr s1) \<and> (\<exists>s'. tick i s = Inr s')"
proof -
  let ?k = "\<lfloor>server_roll i * real (length (availableServers s))\<rfloor>"
  from assms(1) have a: "activeServer s \<in> set SERVER_NODES" by (rule reachable_activeServer)
  then have l: "length (availableServers s) = 4" by (rule length_availableServers)
  have pos: "0 < length (availableServers s)" by (rule availableServers_pos)
  note b = floor_random_bounds(1,2) [OF assms(2) pos]
  from b have i: "index (availableServers s) ?k = Some (availableServers s ! nat ?k)"
    by (rule index_Some)
  then have "availableServers s ! nat ?k \<in> set (availableServers s)"
    by (rule index_SomeD)
  then have "availableServers s ! nat ?k \<in> set SERVER_NODES"
    using availableServers_registry by blast
  with i have c: "\<exists>n. index (availableServers s) ?k = Some n \<and> n \<in> set SERVER_NODES"
    by (intro exI conjI)
  from b(1) have d: "0 \<le> ?k" .
  from b(2) have e: "?k < 4" unfolding l by simp
  note f = rotation_defined [OF assms(2), of s]
  note g = tick_defined [OF assms(2), of s]
  show ?thesis
    by (intro conjI a l c d e f g length_SERVER_NODES)
qed

theorem rotation_index_in_bounds_witness:
  "activeServer example_started \<in> set SERVER_NODES \<and>
   length (availableServers example_started) = 4 \<and>
   (\<exists>n. index (availableServers example_started)
           \<lfloor>server_roll example_input * real (length (availableServers example_started))\<rfloor> = Some n \<and>
        n \<in> set SERVER_NODES) \<and>
   (\<exists>s'. tick example_input example_started = Inr s')"
proof -
  have r: "is_random (server_roll example_input)"
    by (simp add: example_input_def is_random_def)
  note t = rotation_index_in_bounds [OF reachable_example_started r]
  from t show ?thesis by (elim conjE) (intro conjI)
qed

subsection \<open>The handoff\<close>

text \<open>
  C4: a tick that performs a handoff makes the candidate at index \<open>\<lfloor>r * n\<rfloor>\<close> the
  active server, where \<open>r\<close> is the value of the random source and \<open>n\<close> the number of
  candidates. The candidates are the nodes of the registry whose id differs from the
  active server's, each listed once, so the new active server is a node of the registry
  with another id. The choice is uniform: candidate \<open>k\<close> is chosen exactly for the values
  \<open>r\<close> of the interval from \<open>k / n\<close> to \<open>(k + 1) / n\<close>, and these \<open>n\<close> intervals
  have the same length and divide the unit interval.
\<close>

theorem handoff_selects_other_node:
  assumes "currentViews s < targetViews s" and "rotate_roll i > 0.85"
    and "is_random (server_roll i)"
  shows "(\<exists>s'. tick i s = Inr s' \<and>
            activeServer s' =
              availableServers s ! nat \<lfloor>server_roll i * real (length (availableServers s))\<rfloor> \<and>
            activeServer s' \<in> set (availableServers s) \<and>
            activeServer s' \<in> set SERVER_NODES \<and>
            id_node (activeServer s') \<noteq> id_node (activeServer s)) \<and>
         set (availableServers s) =
           {n \<in> set SERVER_NODES. id_node n \<noteq> id_node (activeServer s)} \<and>
         distinct (availableServers s) \<and>
         (\<forall>k r. k < length (availableServers s) \<longrightarrow> is_random r \<longrightarrow>
            (\<exists>s''. tick (i\<lparr>server_roll := r\<rparr>) s = Inr s'' \<and>
               (activeServer s'' = availableServers s ! k) =
                 (real k / real (length (availableServers s)) \<le> r \<and>
                  r < (real k + 1) / real (length (availableServers s)))))"
proof -
  let ?av = "availableServers s"
  have pos: "0 < length ?av" by (rule availableServers_pos)
  have pick: "\<exists>s'. tick j s = Inr s' \<and>
            activeServer s' = ?av ! nat \<lfloor>server_roll j * real (length ?av)\<rfloor>"
    if "rotate_roll j > 0.85" and "is_random (server_roll j)" for j
    using tick_handoff [OF assms(1) that] by simp
  from pick [OF assms(2,3)] obtain s' where t: "tick i s = Inr s'"
    and a: "activeServer s' = ?av ! nat \<lfloor>server_roll i * real (length ?av)\<rfloor>"
    by blast
  have "nat \<lfloor>server_roll i * real (length ?av)\<rfloor> < length ?av"
    using assms(3) pos by (rule floor_random_bounds(3))
  then have m: "activeServer s' \<in> set ?av" unfolding a by (rule nth_mem)
  from availableServers_registry [OF m]
  have first: "\<exists>s'. tick i s = Inr s' \<and>
            activeServer s' = ?av ! nat \<lfloor>server_roll i * real (length ?av)\<rfloor> \<and>
            activeServer s' \<in> set ?av \<and> activeServer s' \<in> set SERVER_NODES \<and>
            id_node (activeServer s') \<noteq> id_node (activeServer s)"
    using t a m by blast
  have uniform: "\<exists>s''. tick (i\<lparr>server_roll := r\<rparr>) s = Inr s'' \<and>
               (activeServer s'' = ?av ! k) =
                 (real k / real (length ?av) \<le> r \<and> r < (real k + 1) / real (length ?av))"
    if k: "k < length ?av" and r: "is_random r" for k r
  proof -
    from assms(2) r
    have "\<exists>s''. tick (i\<lparr>server_roll := r\<rparr>) s = Inr s'' \<and>
            activeServer s'' = ?av ! nat \<lfloor>server_roll (i\<lparr>server_roll := r\<rparr>) * real (length ?av)\<rfloor>"
      by (intro pick) simp_all
    then obtain s'' where t': "tick (i\<lparr>server_roll := r\<rparr>) s = Inr s''"
      and a': "activeServer s'' = ?av ! nat \<lfloor>r * real (length ?av)\<rfloor>"
      by auto
    have b: "nat \<lfloor>r * real (length ?av)\<rfloor> < length ?av"
      using r pos by (rule floor_random_bounds(3))
    have "(activeServer s'' = ?av ! k) = (nat \<lfloor>r * real (length ?av)\<rfloor> = k)"
      unfolding a' using distinct_availableServers b k by (simp add: nth_eq_iff_index_eq)
    also have "\<dots> = (real k / real (length ?av) \<le> r \<and> r < (real k + 1) / real (length ?av))"
      using r pos by (intro floor_scaled_eq) (simp_all add: is_random_def)
    finally show ?thesis using t' by blast
  qed
  show ?thesis
    using first set_availableServers [of s] distinct_availableServers [of s] uniform
    by (intro conjI allI impI)
qed

theorem handoff_selects_other_node_witness:
  "(\<exists>s'. tick example_input example_started = Inr s' \<and>
      activeServer s' = SERVER_NODES ! 3 \<and>
      activeServer s' \<in> set SERVER_NODES \<and>
      id_node (activeServer s') \<noteq> id_node (activeServer example_started)) \<and>
   distinct (availableServers example_started)"
proof -
  have a: "currentViews example_started < targetViews example_started"
    by (simp add: example_started_fields)
  have b: "rotate_roll example_input > 0.85" by (simp add: example_input_def)
  have c: "is_random (server_roll example_input)"
    by (simp add: example_input_def is_random_def)
  from handoff_selects_other_node [OF a b c] show ?thesis
    unfolding example_candidate by blast
qed

subsection \<open>Rejected starts and failed analyses\<close>

text \<open>
  C5: a start with an empty URL, or with a URL that does not contain \<open>tiktok.com\<close>,
  returns normally and changes nothing but the log: the status (\<open>IDLE\<close> when it was
  \<open>IDLE\<close>), the counter and the progress stay as they were, and exactly one entry, of
  type \<open>Error\<close>, is appended to the log.
\<close>

theorem invalid_start_rejected:
  assumes "videoUrl s = [] \<or> \<not> includes_str (videoUrl s) ''tiktok.com''"
  shows "fire (ClickStart now1 now2 now3) s = Inr (handleStartBoost now1 now2 now3 s) \<and>
         handleStartBoost now1 now2 now3 s =
           s\<lparr>logs := slice_last 100 (logs s @
                  [\<lparr>timestamp = now1,
                    message = ''Invalid source: Please provide a valid TikTok video link.'',
                    type_log = Error\<rparr>])\<rparr> \<and>
         status (handleStartBoost now1 now2 now3 s) = status s \<and>
         currentViews (handleStartBoost now1 now2 now3 s) = currentViews s \<and>
         progress (handleStartBoost now1 now2 now3 s) = progress s \<and>
         (status s = IDLE \<longrightarrow> status (handleStartBoost now1 now2 now3 s) = IDLE) \<and>
         (length (logs s) < 100 \<longrightarrow>
            logs (handleStartBoost now1 now2 now3 s) =
              logs s @ [\<lparr>timestamp = now1,
                          message = ''Invalid source: Please provide a valid TikTok video link.'',
                          type_log = Error\<rparr>]) \<and>
         (length (logs s) = 100 \<longrightarrow>
            logs (handleStartBoost now1 now2 now3 s) =
              tl (logs s) @ [\<lparr>timestamp = now1,
                          message = ''Invalid source: Please provide a valid TikTok video link.'',
                          type_log = Error\<rparr>])"
proof -
  from assms have "\<not> valid_url (videoUrl s)" by (simp add: valid_url_def)
  then have h: "handleStartBoost now1 now2 now3 s =
      addLog now1 ''Invalid source: Please provide a valid TikTok video link.'' Error s"
    by (rule handleStartBoost_invalid)
  let ?e = "\<lparr>timestamp = now1,
              message = ''Invalid source: Please provide a valid TikTok video link.'',
              type_log = Error\<rparr>"
  have a: "fire (ClickStart now1 now2 now3) s = Inr (handleStartBoost now1 now2 now3 s)"
    by simp
  have b: "handleStartBoost now1 now2 now3 s = s\<lparr>logs := slice_last 100 (logs s @ [?e])\<rparr>"
    by (simp only: h addLog_def)
  have c: "status (handleStartBoost now1 now2 now3 s) = status s"
    and d: "currentViews (handleStartBoost now1 now2 now3 s) = currentViews s"
    and e: "progress (handleStartBoost now1 now2 now3 s) = progress s"
    by (simp_all only: h addLog_fields)
  have l: "logs (handleStartBoost now1 now2 now3 s) = slice_last 100 (logs s @ [?e])"
    by (simp only: h logs_addLog)
  have f: "length (logs s) < 100 \<longrightarrow> logs (handleStartBoost now1 now2 now3 s) = logs s @ [?e]"
    unfolding l using slice_last_short [of "logs s" ?e] by blast
  have g: "length (logs s) = 100 \<longrightarrow> logs (handleStartBoost now1 now2 now3 s) = tl (logs s) @ [?e]"
    unfolding l using slice_last_full [of "logs s" ?e] by blast
  from c have i: "status s = IDLE \<longrightarrow> status (handleStartBoost now1 now2 now3 s) = IDLE"
    by simp
  show ?thesis
    by (intro conjI a b c d e f g i)
qed

theorem invalid_start_rejected_witness:
  "status (handleStartBoost ''12:00:00'' ''12:00:00'' ''12:00:00'' initial_state) = IDLE \<and>
   currentViews (handleStartBoost ''12:00:00'' ''12:00:00'' ''12:00:00'' initial_state) = 0 \<and>
   progress (handleStartBoost ''12:00:00'' ''12:00:00'' ''12:00:00'' initial_state) = Some 0 \<and>
   logs (handleStartBoost ''12:00:00'' ''12:00:00'' ''12:00:00'' initial_state) =
     [\<lparr>timestamp = ''12:00:00'',
       message = ''Invalid source: Please provide a valid TikTok video link.'',
       type_log = Error\<rparr>] \<and>
   status (handleStartBoost ''12:00:00'' ''12:00:00'' ''12:00:00''
             (initial_state\<lparr>videoUrl := ''not-a-valid-link''\<rparr>)) = IDLE \<and>
   logs (handleStartBoost ''12:00:00'' ''12:00:00'' ''12:00:00''
             (initial_state\<lparr>videoUrl := ''not-a-valid-link''\<rparr>)) =
     [\<lparr>timestamp = ''12:00:00'',
       message = ''Invalid source: Please provide a valid TikTok video link.'',
       type_log = Error\<rparr>]"
proof -
  have a: "videoUrl initial_state = [] \<or> \<not> includes_str (videoUrl initial_state) ''tiktok.com''"
    by (simp add: initial_state_def)
  have b: "videoUrl (initial_state\<lparr>videoUrl := ''not-a-valid-link''\<rparr>) = [] \<or>
           \<not> includes_str (videoUrl (initial_state\<lparr>videoUrl := ''not-a-valid-link''\<rparr>)) ''tiktok.com''"
    by simp
  from invalid_start_rejected [OF a, of "''12:00:00''" "''12:00:00''" "''12:00:00''"]
    invalid_start_rejected [OF b, of "''12:00:00''" "''12:00:00''" "''12:00:00''"]
  show ?thesis by (simp add: initial_state_def slice_last_def)
qed

text \<open>
  C6: for every URL, when the request to the service throws, or the text of its response
  is not parseable as JSON (or parses to \<open>null\<close>, whose fields cannot be read), the
  analysis is fulfilled with the fixed fallback: score 0, the three canned
  recommendations, and the estimated reach \<open>N/A\<close>. Whatever the service does, the
  promise is fulfilled, never rejected.
\<close>

theorem analysis_failure_fallback:
  assumes "generateContent (prompt url) = Throws \<or>
           (\<exists>txt. generateContent (prompt url) = Response txt \<and>
              (JSON_parse (case txt of None \<Rightarrow> ''{}'' | Some t \<Rightarrow> if t = [] then ''{}'' else t) = None \<or>
               JSON_parse (case txt of None \<Rightarrow> ''{}'' | Some t \<Rightarrow> if t = [] then ''{}'' else t) = Some JNull))"
  shows "analyzeTikTokContent JSON_parse generateContent url =
           Fulfilled \<lparr>score = JNumber 0,
                      recommendations =
                        JArray [JString ''Ensure high lighting'', JString ''Use trending sounds'',
                                JString ''Post at peak hours''],
                      estimatedReach = JString ''N/A''\<rparr> \<and>
         (\<exists>res. analyzeTikTokContent parse' generate' url' = Fulfilled res)"
proof -
  from assms have "\<exists>e. analyze_try JSON_parse generateContent url = Inl e"
    using analyze_try_Throws analyze_try_unparseable analyze_try_null by blast
  then have "analyzeTikTokContent JSON_parse generateContent url = Fulfilled fallback"
    by (auto simp add: analyzeTikTokContent_def)
  then show ?thesis
    using analyze_fulfilled [of parse' generate' url'] by (simp add: fallback_def)
qed

theorem analysis_failure_fallback_witness:
  "analyzeTikTokContent (\<lambda>t. None) (\<lambda>p. Throws) example_url =
     Fulfilled \<lparr>score = JNumber 0,
                recommendations =
                  JArray [JString ''Ensure high lighting'', JString ''Use trending sounds'',
                          JString ''Post at peak hours''],
                estimatedReach = JString ''N/A''\<rparr> \<and>
   analyzeTikTokContent (\<lambda>t. None) (\<lambda>p. Response (Some ''<html>Bad Gateway</html>'')) example_url =
     Fulfilled \<lparr>score = JNumber 0,
                recommendations =
                  JArray [JString ''Ensure high lighting'', JString ''Use trending sounds'',
                          JString ''Post at peak hours''],
                estimatedReach = JString ''N/A''\<rparr>"
proof -
  have a: "(\<lambda>p. Throws) (prompt example_url) = Throws \<or>
           (\<exists>txt. (\<lambda>p. Throws) (prompt example_url) = Response txt \<and>
              ((\<lambda>t. None) (case txt of None \<Rightarrow> ''{}'' | Some t \<Rightarrow> if t = [] then ''{}'' else t) = None \<or>
               (\<lambda>t. None) (case txt of None \<Rightarrow> ''{}'' | Some t \<Rightarrow> if t = [] then ''{}'' else t) = Some JNull))"
    by simp
  have b: "(\<lambda>p. Response (Some ''<html>Bad Gateway</html>'')) (prompt example_url) = Throws \<or>
           (\<exists>txt. (\<lambda>p. Response (Some ''<html>Bad Gateway</html>'')) (prompt example_url) = Response txt \<and>
              ((\<lambda>t. None) (case txt of None \<Rightarrow> ''{}'' | Some t \<Rightarrow> if t = [] then ''{}'' else t) = None \<or>
               (\<lambda>t. None) (case txt of None \<Rightarrow> ''{}'' | Some t \<Rightarrow> if t = [] then ''{}'' else t) = Some JNull))"
    by simp
  from analysis_failure_fallback [OF a] analysis_failure_fallback [OF b]
  show ?thesis by simp
qed

subsection \<open>The counter and the progress\<close>

text \<open>
  C3, as amended: after every operation that writes the counter (a tick, an accepted
  start, the reset), when the target is positive, the progress is what
  \<open>Math.floor((currentViews / targetViews) * 100)\<close> gives in double arithmetic, the
  quotient and the product each rounded to the nearest double. It is 0 when the counter
  is 0 and 100 when the counter equals the target. For a target up to \<open>2 ^ 44\<close> it is
  never above the floor of the exact value of \<open>currentViews / targetViews * 100\<close> and at
  most one below it, and it is that floor whenever the exact value is not a whole number.
\<close>

theorem progress_after_counter_update:
  assumes "reachable s" and "enabled s e" and "counter_update s e"
    and "fire e s = Inr s'" and "0 < targetViews s'"
  shows "progress s' = percent (currentViews s') (targetViews s') \<and>
         (currentViews s' = 0 \<longrightarrow> progress s' = Some 0) \<and>
         (currentViews s' = targetViews s' \<longrightarrow> progress s' = Some 100) \<and>
         (targetViews s' \<le> 2 ^ 44 \<longrightarrow>
            (\<exists>p. progress s' = Some p \<and>
               \<lfloor>real_of_int (currentViews s') / real_of_int (targetViews s') * 100\<rfloor> - 1 \<le> p \<and>
               p \<le> \<lfloor>real_of_int (currentViews s') / real_of_int (targetViews s') * 100\<rfloor> \<and>
               (\<not> targetViews s' dvd 100 * currentViews s' \<longrightarrow>
                  p = \<lfloor>real_of_int (currentViews s') / real_of_int (targetViews s') * 100\<rfloor>)))"
proof -
  have main: "progress s' = percent (currentViews s') (targetViews s') \<and>
              0 \<le> currentViews s' \<and> currentViews s' \<le> targetViews s'"
  proof (cases e)
    case (ClickStart now1 now2 now3)
    with assms have s': "s' = handleStartBoost now1 now2 now3 s"
      and v: "valid_url (videoUrl s)" by auto
    from handleStartBoost_valid(2,3) [OF v, of now1 now2 now3] assms(5) show ?thesis
      unfolding s' by (simp add: percent_zero)
  next
    case (ClickAbort now1)
    with assms have s': "s' = handleReset now1 s" by auto
    from assms(5) show ?thesis
      unfolding s' by (simp add: handleReset_fields percent_zero)
  next
    case (IntervalTick i)
    with assms have t: "tick i s = Inr s'" and p: "status s = PROCESSING"
      and vi: "valid_tick_input i" by auto
    have tv: "targetViews s' = targetViews s" using t by (rule tick_fields(1))
    with assms(5) have pos: "0 < targetViews s" by simp
    from reachable_counter [OF assms(1)] p pos
    have nn: "0 \<le> currentViews s" and le: "currentViews s \<le> targetViews s"
      and pr: "progress s = percent (currentViews s) (targetViews s)" by simp_all
    show ?thesis
    proof (cases "currentViews s < targetViews s")
      case True
      from vi have "10 \<le> increment i"
        by (intro increment_bounds) (simp add: valid_tick_input_def)
      with tick_advance_counter(1,2) [OF True t] nn pos show ?thesis
        unfolding tv by simp
    next
      case False
      then have ge: "targetViews s \<le> currentViews s" by simp
      with le have "currentViews s = targetViews s" by simp
      with pr tick_done_fields(1,3) [OF ge t] pos show ?thesis
        unfolding tv by simp
    qed
  qed (use assms in simp_all)
  then have eq: "progress s' = percent (currentViews s') (targetViews s')"
    and nn: "0 \<le> currentViews s'" and le: "currentViews s' \<le> targetViews s'"
    by simp_all
  have z: "currentViews s' = 0 \<longrightarrow> progress s' = Some 0"
    unfolding eq using assms(5) by (simp add: percent_zero)
  have f: "currentViews s' = targetViews s' \<longrightarrow> progress s' = Some 100"
    unfolding eq using assms(5) by (simp add: percent_full)
  have b: "targetViews s' \<le> 2 ^ 44 \<longrightarrow>
            (\<exists>p. progress s' = Some p \<and>
               \<lfloor>real_of_int (currentViews s') / real_of_int (targetViews s') * 100\<rfloor> - 1 \<le> p \<and>
               p \<le> \<lfloor>real_of_int (currentViews s') / real_of_int (targetViews s') * 100\<rfloor> \<and>
               (\<not> targetViews s' dvd 100 * currentViews s' \<longrightarrow>
                  p = \<lfloor>real_of_int (currentViews s') / real_of_int (targetViews s') * 100\<rfloor>))"
    unfolding eq using percent_bounds [OF nn le assms(5)] by blast
  from eq z f b show ?thesis by (intro conjI)
qed

theorem progress_after_counter_update_witness:
  "\<exists>s'. tick example_input example_started = Inr s' \<and> currentViews s' = 22 \<and>
      targetViews s' = 500 \<and> progress s' = Some 4"
proof -
  from tick_defined [of example_input example_started] valid_example_input
  obtain s' where t: "tick example_input example_started = Inr s'"
    by (auto simp add: valid_tick_input_def)
  have e: "enabled example_started (IntervalTick example_input)"
    by (simp add: example_started_fields valid_example_input)
  have u: "counter_update example_started (IntervalTick example_input)" by simp
  have f: "fire (IntervalTick example_input) example_started = Inr s'" using t by simp
  have tv: "targetViews s' = 500"
    using tick_fields(1) [OF t] by (simp add: example_started_fields)
  have lt: "currentViews example_started < targetViews example_started"
    by (simp add: example_started_fields)
  have cv: "currentViews s' = 22"
    using tick_advance_counter(1) [OF lt t]
    by (simp add: example_started_fields example_increment)
  have pos: "0 < targetViews s'" using tv by simp
  note th = progress_after_counter_update [OF reachable_example_started e u f pos]
  from th [THEN conjunct2, THEN conjunct2, THEN conjunct2]
  have "progress s' = Some 4" unfolding tv cv by (auto simp add: dvd_eq_mod_eq_0)
  with t cv tv show ?thesis by blast
qed

text \<open>
  C3 as stated, with the exact quotient, fails: after 100 was typed as the target, a
  first tick with the increment 29 brings the counter to 29 and stores the progress 28,
  since the double nearest to \<open>29 / 100\<close> times 100 rounds to a double just below 29.
\<close>

theorem progress_exact_floor_counterexample:
  "reachable example_hundred \<and> enabled example_hundred (IntervalTick example_roll) \<and>
   counter_update example_hundred (IntervalTick example_roll) \<and>
   fire (IntervalTick example_roll) example_hundred = Inr example_hundred_ticked \<and>
   currentViews example_hundred_ticked = 29 \<and> targetViews example_hundred_ticked = 100 \<and>
   progress example_hundred_ticked = Some 28 \<and>
   \<lfloor>real_of_int (currentViews example_hundred_ticked) /
      real_of_int (targetViews example_hundred_ticked) * 100\<rfloor> = 29"
  using reachable_example_hundred valid_example_roll tick_example_hundred
  by (simp add: example_hundred_fields example_hundred_ticked_def)

subsection \<open>The tick loop\<close>

text \<open>
  C1: after an accepted start with a positive target, the tick loop completes: for any
  values of the clock and of the random source, once the callback has run more than
  \<open>(target + 9) div 10\<close> times the counter equals the target, the status is
  \<open>COMPLETED\<close>, and the last entry of the log is the \<open>Success\<close> entry naming the
  target and the five nodes. Runs of the callback beyond that do not happen: the interval
  is cleared, and the state stays as it is.
\<close>

theorem campaign_completes:
  assumes "valid_url (videoUrl s)" and "0 < targetViews s"
    and "\<forall>i\<in>set inputs. valid_tick_input i"
    and "nat ((targetViews s + 9) div 10) < length inputs"
  shows "\<exists>s'. run_ticks inputs (handleStartBoost now1 now2 now3 s) = Inr s' \<and>
           run_ticks (inputs @ extra) (handleStartBoost now1 now2 now3 s) = Inr s' \<and>
           currentViews s' = targetViews s \<and> targetViews s' = targetViews s \<and>
           status s' = COMPLETED \<and> logs s' \<noteq> [] \<and>
           type_log (last (logs s')) = Success \<and>
           message (last (logs s')) =
             ''Task successful: '' @ toString (targetViews s) @
             '' views distributed across 5 nodes.''"
proof -
  let ?s0 = "handleStartBoost now1 now2 now3 s"
  note st = handleStartBoost_valid [OF assms(1), of now1 now2 now3]
  have tv: "targetViews ?s0 = targetViews s" by (rule handleStartBoost_fields(1))
  have p: "status ?s0 = PROCESSING" by (rule st(1))
  have le: "currentViews ?s0 \<le> targetViews ?s0" using assms(2) by (simp add: st(2) tv)
  have n: "nat ((targetViews ?s0 - currentViews ?s0 + 9) div 10) < length inputs"
    using assms(4) by (simp add: st(2) tv)
  from run_ticks_completes [OF p le assms(3) n]
  obtain s' where r: "run_ticks inputs ?s0 = Inr s'" and c: "status s' = COMPLETED"
    and rest: "currentViews s' = targetViews s" "targetViews s' = targetViews s"
      "logs s' \<noteq> []" "message (last (logs s')) = task_successful (targetViews s)"
      "type_log (last (logs s')) = Success"
    unfolding tv by blast
  from r c have "run_ticks (inputs @ extra) ?s0 = Inr s'"
    by (simp add: run_ticks_append run_ticks_idle)
  with r c rest show ?thesis
    unfolding task_successful_text by blast
qed

theorem campaign_completes_witness:
  "\<exists>s'. run_ticks (replicate 51 example_input) example_started = Inr s' \<and>
      currentViews s' = 500 \<and> status s' = COMPLETED \<and>
      type_log (last (logs s')) = Success \<and>
      message (last (logs s')) = ''Task successful: 500 views distributed across 5 nodes.''"
proof -
  let ?s = "initial_state\<lparr>videoUrl := example_url\<rparr>"
  have a: "valid_url (videoUrl ?s)" using valid_example_url by simp
  have b: "0 < targetViews ?s" by (simp add: initial_state_def)
  have c: "\<forall>i\<in>set (replicate 51 example_input). valid_tick_input i"
    using valid_example_input by simp
  have d: "nat ((targetViews ?s + 9) div 10) < length (replicate 51 example_input)"
    by (simp add: initial_state_def)
  have t: "targetViews ?s = 500" by (simp add: initial_state_def)
  have m: "toString 500 = ''500''"
    by (simp add: toString_def string_of_nat.simps)
  from campaign_completes [OF a b c d, of "''12:00:00''" "''12:00:00''" "''12:00:00''" "[]"]
  show ?thesis
    unfolding example_started_def [symmetric] t m by auto
qed

subsection \<open>The increment\<close>

text \<open>
  C2, as amended: on a tick while \<open>PROCESSING\<close> with the counter below the target, the
  new counter is the minimum of the old counter plus \<open>d\<close> and the target, where
  \<open>d = \<lfloor>r * 25\<rfloor> + 10\<close> for the value \<open>r\<close> of the random source, an integer from 10
  to 34; each \<open>d\<close> of that range is drawn exactly for the values \<open>r\<close> of an interval of
  length \<open>1 / 25\<close>, so the draw is uniform. After every tick the counter does not exceed
  the target, and in a reachable state whose target is not negative no tick lowers the
  counter.
\<close>

theorem tick_advances_counter:
  assumes "status s = PROCESSING" and "valid_tick_input i"
  shows "(\<exists>s'. tick i s = Inr s' \<and> targetViews s' = targetViews s \<and>
            currentViews s' \<le> targetViews s \<and>
            (currentViews s < targetViews s \<longrightarrow>
               currentViews s' = min (currentViews s + increment i) (targetViews s) \<and>
               currentViews s < currentViews s') \<and>
            (reachable s \<longrightarrow> 0 \<le> targetViews s \<longrightarrow> currentViews s \<le> currentViews s')) \<and>
         10 \<le> increment i \<and> increment i \<le> 34 \<and>
         (\<forall>d r. 10 \<le> d \<longrightarrow> d \<le> 34 \<longrightarrow> is_random r \<longrightarrow>
            (increment (i\<lparr>increment_roll := r\<rparr>) = d) =
              ((real_of_int d - 10) / 25 \<le> r \<and> r < (real_of_int d - 9) / 25))"
proof -
  from assms(2) have r: "is_random (server_roll i)" and ri: "is_random (increment_roll i)"
    by (simp_all add: valid_tick_input_def)
  note inc = increment_bounds [OF ri]
  from tick_defined [OF r] obtain s' where t: "tick i s = Inr s'" by blast
  have tv: "targetViews s' = targetViews s" using t by (rule tick_fields(1))
  have step: "currentViews s' \<le> targetViews s \<and>
            (currentViews s < targetViews s \<longrightarrow>
               currentViews s' = min (currentViews s + increment i) (targetViews s) \<and>
               currentViews s < currentViews s') \<and>
            (reachable s \<longrightarrow> 0 \<le> targetViews s \<longrightarrow> currentViews s \<le> currentViews s')"
  proof (cases "currentViews s < targetViews s")
    case True
    from tick_advance_counter(1) [OF True t] inc(1) True show ?thesis by simp
  next
    case False
    then have ge: "targetViews s \<le> currentViews s" by simp
    have "currentViews s \<le> targetViews s" if "reachable s" and "0 \<le> targetViews s"
      using reachable_counter [OF that(1)] assms(1) that(2) by simp
    with tick_done_fields(1) [OF ge t] False show ?thesis by simp
  qed
  have uniform: "(increment (i\<lparr>increment_roll := r\<rparr>) = d) =
              ((real_of_int d - 10) / 25 \<le> r \<and> r < (real_of_int d - 9) / 25)"
    if "10 \<le> d" and "is_random r" for d r
    using increment_eq [of "i\<lparr>increment_roll := r\<rparr>" d] that by simp
  from t tv step have "\<exists>s'. tick i s = Inr s' \<and> targetViews s' = targetViews s \<and>
            currentViews s' \<le> targetViews s \<and>
            (currentViews s < targetViews s \<longrightarrow>
               currentViews s' = min (currentViews s + increment i) (targetViews s) \<and>
               currentViews s < currentViews s') \<and>
            (reachable s \<longrightarrow> 0 \<le> targetViews s \<longrightarrow> currentViews s \<le> currentViews s')"
    by blast
  with inc uniform show ?thesis by (intro conjI allI impI)
qed

theorem tick_advances_counter_witness:
  "(\<exists>s'. tick example_input example_started = Inr s' \<and> targetViews s' = 500 \<and>
      currentViews s' = 22 \<and> 0 < currentViews s') \<and>
   increment example_input = 22"
proof -
  have a: "status example_started = PROCESSING" by (rule example_started_fields(1))
  have lt: "currentViews example_started < targetViews example_started"
    by (simp add: example_started_fields)
  from tick_advances_counter [OF a valid_example_input] lt
  show ?thesis by (auto simp add: example_started_fields example_increment)
qed

text \<open>
  C2 as stated fails for a negative target: a start does not reject it, and the
  first tick then lowers the counter from 0 to the target.
\<close>

theorem tick_lowers_counter_counterexample:
  "reachable example_negative \<and> status example_negative = PROCESSING \<and>
   valid_tick_input example_input \<and> currentViews example_negative = 0 \<and>
   tick example_input example_negative =
     Inr ((addLog ''12:00:01'' (task_successful (- 5)) Success
            (example_negative\<lparr>status := COMPLETED\<rparr>))\<lparr>currentViews := - 5\<rparr>) \<and>
   currentViews ((addLog ''12:00:01'' (task_successful (- 5)) Success
            (example_negative\<lparr>status := COMPLETED\<rparr>))\<lparr>currentViews := - 5\<rparr>)
     < currentViews example_negative"
proof -
  have "targetViews example_negative \<le> currentViews example_negative"
    by (simp add: example_negative_fields)
  from tick_done [OF this, of example_input]
  have "tick example_input example_negative =
     Inr ((addLog ''12:00:01'' (task_successful (- 5)) Success
            (example_negative\<lparr>status := COMPLETED\<rparr>))\<lparr>currentViews := - 5\<rparr>)"
    by (simp add: example_negative_fields example_input_def)
  then show ?thesis
    using reachable_example_negative valid_example_input
    by (simp add: example_negative_fields)
qed

end
